theory Spec2Isabelle
  imports Complex_Main "HOL-Library.Word"
begin

unbundle bit_operations_syntax

section \<open>Values of type double\<close>

text \<open>
  The profiler computes its statistics in C \<open>double\<close>, the binary64 format of IEEE 754.
  A double is modelled as the real number it stands for, or one of the three special
  values. Every operation on finite values gives the exact result rounded to the nearest
  double, ties to the one with an even significand (the default rounding mode, each
  operation rounded on its own): the significand has 53 bits, the values below
  \<open>2 ^ - 1022\<close> are the multiples of \<open>2 ^ - 1074\<close>, and a result that rounds to
  \<open>2 ^ 1024\<close> or more in magnitude is an infinity. Every branch the code takes on a
  special value (a NaN compares false with everything, a division by zero gives an
  infinity or a NaN) is modelled. The sign of zero is not modelled: it only shows in a
  division by zero, and every divisor of the program is a converted unsigned number or
  tested against zero before.
\<close>

datatype dbl = Finite real | PInf | NInf | NaN

text \<open>\<open>rne y\<close> is the integer nearest to \<open>y\<close>, the even one of the two when \<open>y\<close> lies
  halfway.\<close>

definition rne :: "real \<Rightarrow> int" where
  "rne y = (let f = \<lfloor>y\<rfloor>; d = y - of_int f
            in if d < 1 / 2 then f else if 1 / 2 < d then f + 1
               else if even f then f else f + 1)"

text \<open>The exponent of the last place of the doubles around \<open>x\<close>: 52 below the exponent
  of \<open>x\<close>, and \<open>- 1074\<close> for the subnormal numbers.\<close>

definition ulp_exp :: "real \<Rightarrow> int" where
  "ulp_exp x = max \<lfloor>log 2 \<bar>x\<bar>\<rfloor> (- 1022) - 52"

text \<open>Rounding to 53 bits, with an exponent that is not bounded above.\<close>

definition r64 :: "real \<Rightarrow> real" where
  "r64 x = (if x = 0 then 0 else of_int (rne (x / 2 powi ulp_exp x)) * 2 powi ulp_exp x)"

text \<open>The double that an exact result is rounded to.\<close>

definition dbl_of_real :: "real \<Rightarrow> dbl" where
  "dbl_of_real x =
     (let y = r64 x
      in if 2 ^ 1024 \<le> y then PInf else if y \<le> - (2 ^ 1024) then NInf else Finite y)"

text \<open>The reals that are doubles are those that rounding leaves alone.\<close>

fun is_binary64 :: "dbl \<Rightarrow> bool" where
  "is_binary64 (Finite r) = (r64 r = r)"
| "is_binary64 PInf = True"
| "is_binary64 NInf = True"
| "is_binary64 NaN = True"

fun isfinite :: "dbl \<Rightarrow> bool" where
  "isfinite (Finite r) = True"
| "isfinite PInf = False"
| "isfinite NInf = False"
| "isfinite NaN = False"

fun dbl_neg :: "dbl \<Rightarrow> dbl" where
  "dbl_neg (Finite r) = Finite (- r)"
| "dbl_neg PInf = NInf"
| "dbl_neg NInf = PInf"
| "dbl_neg NaN = NaN"

fun dbl_add :: "dbl \<Rightarrow> dbl \<Rightarrow> dbl" where
  "dbl_add (Finite a) (Finite b) = dbl_of_real (a + b)"
| "dbl_add (Finite a) PInf = PInf"
| "dbl_add (Finite a) NInf = NInf"
| "dbl_add PInf (Finite b) = PInf"
| "dbl_add PInf PInf = PInf"
| "dbl_add PInf NInf = NaN"
| "dbl_add NInf (Finite b) = NInf"
| "dbl_add NInf NInf = NInf"
| "dbl_add NInf PInf = NaN"
| "dbl_add NaN b = NaN"
| "dbl_add a NaN = NaN"

definition dbl_sub :: "dbl \<Rightarrow> dbl \<Rightarrow> dbl" where
  "dbl_sub a b = dbl_add a (dbl_neg b)"

fun dbl_mul :: "dbl \<Rightarrow> dbl \<Rightarrow> dbl" where
  "dbl_mul (Finite a) (Finite b) = dbl_of_real (a * b)"
| "dbl_mul (Finite a) PInf = (if a = 0 then NaN else if 0 < a then PInf else NInf)"
| "dbl_mul (Finite a) NInf = (if a = 0 then NaN else if 0 < a then NInf else PInf)"
| "dbl_mul PInf (Finite b) = (if b = 0 then NaN else if 0 < b then PInf else NInf)"
| "dbl_mul NInf (Finite b) = (if b = 0 then NaN else if 0 < b then NInf else PInf)"
| "dbl_mul PInf PInf = PInf"
| "dbl_mul PInf NInf = NInf"
| "dbl_mul NInf PInf = NInf"
| "dbl_mul NInf NInf = PInf"
| "dbl_mul NaN b = NaN"
| "dbl_mul a NaN = NaN"

fun dbl_div :: "dbl \<Rightarrow> dbl \<Rightarrow> dbl" where
  "dbl_div (Finite a) (Finite b) =
     (if b = 0 then (if a = 0 then NaN else if 0 < a then PInf else NInf)
      else dbl_of_real (a / b))"
| "dbl_div (Finite a) PInf = Finite 0"
| "dbl_div (Finite a) NInf = Finite 0"
| "dbl_div PInf (Finite b) = (if 0 \<le> b then PInf else NInf)"
| "dbl_div NInf (Finite b) = (if 0 \<le> b then NInf else PInf)"
| "dbl_div PInf PInf = NaN"
| "dbl_div PInf NInf = NaN"
| "dbl_div NInf PInf = NaN"
| "dbl_div NInf NInf = NaN"
| "dbl_div NaN b = NaN"
| "dbl_div a NaN = NaN"

fun dbl_sqrt :: "dbl \<Rightarrow> dbl" where
  "dbl_sqrt (Finite a) = (if a < 0 then NaN else dbl_of_real (sqrt a))"
| "dbl_sqrt PInf = PInf"
| "dbl_sqrt NInf = NaN"
| "dbl_sqrt NaN = NaN"

fun dbl_lt :: "dbl \<Rightarrow> dbl \<Rightarrow> bool" where
  "dbl_lt (Finite a) (Finite b) = (a < b)"
| "dbl_lt (Finite a) PInf = True"
| "dbl_lt NInf (Finite b) = True"
| "dbl_lt NInf PInf = True"
| "dbl_lt a b = False"

fun dbl_le :: "dbl \<Rightarrow> dbl \<Rightarrow> bool" where
  "dbl_le (Finite a) (Finite b) = (a \<le> b)"
| "dbl_le (Finite a) PInf = True"
| "dbl_le NInf (Finite b) = True"
| "dbl_le NInf PInf = True"
| "dbl_le PInf PInf = True"
| "dbl_le NInf NInf = True"
| "dbl_le a b = False"

definition dbl_gt :: "dbl \<Rightarrow> dbl \<Rightarrow> bool" where
  "dbl_gt a b = dbl_lt b a"

definition dbl_ge :: "dbl \<Rightarrow> dbl \<Rightarrow> bool" where
  "dbl_ge a b = dbl_le b a"

text \<open>The C operator \<open>!=\<close>: true whenever an operand is a NaN.\<close>

fun dbl_ne :: "dbl \<Rightarrow> dbl \<Rightarrow> bool" where
  "dbl_ne (Finite a) (Finite b) = (a \<noteq> b)"
| "dbl_ne PInf PInf = False"
| "dbl_ne NInf NInf = False"
| "dbl_ne a b = True"

type_synonym ticks = "64 word"

text \<open>Conversions of unsigned integers to double: a value of more than 53 bits is rounded.\<close>

definition dbl_of_ticks :: "ticks \<Rightarrow> dbl" where
  "dbl_of_ticks w = dbl_of_real (real (unat w))"

definition dbl_of_u32 :: "32 word \<Rightarrow> dbl" where
  "dbl_of_u32 w = dbl_of_real (real (unat w))"

definition dbl_of_size :: "nat \<Rightarrow> dbl" where
  "dbl_of_size n = dbl_of_real (real n)"

text \<open>
  The cast \<open>(ticks) x\<close> truncates towards zero. C leaves it undefined when the truncated
  value is not a \<open>uint64_t\<close> (or \<open>x\<close> is not finite): the model returns \<open>None\<close> there.
\<close>

fun ticks_of_dbl :: "dbl \<Rightarrow> ticks option" where
  "ticks_of_dbl (Finite r) =
     (if - 1 < r \<and> r < 2 ^ 64 then Some (word_of_int (if 0 \<le> r then \<lfloor>r\<rfloor> else 0)) else None)"
| "ticks_of_dbl PInf = None"
| "ticks_of_dbl NInf = None"
| "ticks_of_dbl NaN = None"

definition DBL_MAX :: dbl where
  "DBL_MAX = Finite ((2 ^ 53 - 1) * 2 ^ 971)"

definition UINT64_MAX :: ticks where
  "UINT64_MAX = - 1"

definition absd :: "dbl \<Rightarrow> dbl" where
  "absd x = (if dbl_ge x (Finite 0) then x else dbl_neg x)"

section \<open>Loops of \<open>get_abs_deviation\<close>\<close>

text \<open>
  Each loop of \<open>get_abs_deviation\<close> is \<open>for (i = 0; i < num_vals; i++)\<close> with a counter
  \<open>uint32_t i\<close> and a bound \<open>size_t num_vals\<close>. The counter wraps at \<open>2 ^ 32\<close>, so the
  loop does not end for a larger bound: not returning is the value \<open>None\<close>.
\<close>

partial_function (option) for_loop ::
  "(32 word \<Rightarrow> 's \<Rightarrow> 's) \<Rightarrow> nat \<Rightarrow> 32 word \<Rightarrow> 's \<Rightarrow> 's option" where
  "for_loop body num_vals i s =
     (if unat i < num_vals then for_loop body num_vals (i + 1) (body i s) else Some s)"

definition PFD_VAL_UP_LIMIT :: ticks where
  "PFD_VAL_UP_LIMIT = 1500"

text \<open>First loop: invalid samples are set to zero in the array, then added to the sum.\<close>

definition clip_step :: "32 word \<Rightarrow> ticks list \<times> ticks \<Rightarrow> ticks list \<times> ticks" where
  "clip_step i st =
     (let vals = fst st; sum_vals = snd st;
          vals1 = (if sint (vals ! unat i) < 0 \<or> vals ! unat i > PFD_VAL_UP_LIMIT
                   then vals[unat i := 0] else vals)
      in (vals1, sum_vals + vals1 ! unat i))"

text \<open>
  The locals of the second loop: running extremes with their indices, the five band
  counters and band sums, and the two global sums of deviations.
\<close>

record locals =
  l_max_val :: dbl
  l_min_val :: dbl
  l_max_val_idx :: "64 word"
  l_min_val_idx :: "64 word"
  l_num_dev_10p :: "32 word"
  l_num_dev_25p :: "32 word"
  l_num_dev_50p :: "32 word"
  l_num_dev_75p :: "32 word"
  l_num_dev_rst :: "32 word"
  l_sum_vals_10p :: ticks
  l_sum_vals_25p :: ticks
  l_sum_vals_50p :: ticks
  l_sum_vals_75p :: ticks
  l_sum_vals_rst :: ticks
  l_sum_adev :: dbl
  l_sum_stdev :: dbl

definition locals_init :: locals where
  "locals_init =
     \<lparr>l_max_val = Finite 0, l_min_val = DBL_MAX, l_max_val_idx = 0, l_min_val_idx = 0,
      l_num_dev_10p = 0, l_num_dev_25p = 0, l_num_dev_50p = 0, l_num_dev_75p = 0,
      l_num_dev_rst = 0,
      l_sum_vals_10p = 0, l_sum_vals_25p = 0, l_sum_vals_50p = 0, l_sum_vals_75p = 0,
      l_sum_vals_rst = 0,
      l_sum_adev = Finite 0, l_sum_stdev = Finite 0\<rparr>"

text \<open>The band cutoffs, fractions of the global average. The constant \<open>0.1\<close> is the double
  nearest to one tenth; the other three fractions are doubles.\<close>

definition dev_10p :: "dbl \<Rightarrow> dbl" where
  "dev_10p avg = dbl_mul (dbl_of_real (1 / 10)) avg"

definition dev_25p :: "dbl \<Rightarrow> dbl" where
  "dev_25p avg = dbl_mul (Finite (1 / 4)) avg"

definition dev_50p :: "dbl \<Rightarrow> dbl" where
  "dev_50p avg = dbl_mul (Finite (1 / 2)) avg"

definition dev_75p :: "dbl \<Rightarrow> dbl" where
  "dev_75p avg = dbl_mul (Finite (3 / 4)) avg"

text \<open>The update of the extremes: the minimum is only looked at when the maximum is not
  replaced.\<close>

definition track_extremes :: "32 word \<Rightarrow> ticks \<Rightarrow> locals \<Rightarrow> locals" where
  "track_extremes i v s =
     (if dbl_gt (dbl_of_ticks v) (l_max_val s)
      then s\<lparr>l_max_val := dbl_of_ticks v, l_max_val_idx := ucast i\<rparr>
      else if dbl_lt (dbl_of_ticks v) (l_min_val s)
      then s\<lparr>l_min_val := dbl_of_ticks v, l_min_val_idx := ucast i\<rparr>
      else s)"

definition count_band :: "dbl \<Rightarrow> dbl \<Rightarrow> ticks \<Rightarrow> locals \<Rightarrow> locals" where
  "count_band avg ad v s =
     (if dbl_le ad (dev_10p avg)
      then s\<lparr>l_num_dev_10p := l_num_dev_10p s + 1, l_sum_vals_10p := l_sum_vals_10p s + v\<rparr>
      else if dbl_le ad (dev_25p avg)
      then s\<lparr>l_num_dev_25p := l_num_dev_25p s + 1, l_sum_vals_25p := l_sum_vals_25p s + v\<rparr>
      else if dbl_le ad (dev_50p avg)
      then s\<lparr>l_num_dev_50p := l_num_dev_50p s + 1, l_sum_vals_50p := l_sum_vals_50p s + v\<rparr>
      else if dbl_le ad (dev_75p avg)
      then s\<lparr>l_num_dev_75p := l_num_dev_75p s + 1, l_sum_vals_75p := l_sum_vals_75p s + v\<rparr>
      else s\<lparr>l_num_dev_rst := l_num_dev_rst s + 1, l_sum_vals_rst := l_sum_vals_rst s + v\<rparr>)"

text \<open>Second loop: one sample of the clipped array.\<close>

definition band_step :: "ticks list \<Rightarrow> dbl \<Rightarrow> 32 word \<Rightarrow> locals \<Rightarrow> locals" where
  "band_step vals avg i s =
     (let v = vals ! unat i;
          diff = dbl_sub (dbl_of_ticks v) avg;
          ad = absd diff;
          s1 = track_extremes i v s;
          s2 = count_band avg ad v s1
      in s2\<lparr>l_sum_adev := dbl_add (l_sum_adev s2) ad,
             l_sum_stdev := dbl_add (l_sum_stdev s2) (dbl_mul ad ad)\<rparr>)"

text \<open>The sums of the third loop, the deviations of each band from its own average.\<close>

record band_sums =
  sum_adev_10p :: dbl
  sum_adev_25p :: dbl
  sum_adev_50p :: dbl
  sum_adev_75p :: dbl
  sum_adev_rst :: dbl
  sum_stdev_10p :: dbl
  sum_stdev_25p :: dbl
  sum_stdev_50p :: dbl
  sum_stdev_75p :: dbl
  sum_stdev_rst :: dbl

definition band_sums_init :: band_sums where
  "band_sums_init =
     \<lparr>sum_adev_10p = Finite 0, sum_adev_25p = Finite 0, sum_adev_50p = Finite 0,
      sum_adev_75p = Finite 0, sum_adev_rst = Finite 0,
      sum_stdev_10p = Finite 0, sum_stdev_25p = Finite 0, sum_stdev_50p = Finite 0,
      sum_stdev_75p = Finite 0, sum_stdev_rst = Finite 0\<rparr>"

text \<open>The five band averages, as the third loop reads them from the summary.\<close>

record band_avgs =
  b_avg_10p :: dbl
  b_avg_25p :: dbl
  b_avg_50p :: dbl
  b_avg_75p :: dbl
  b_avg_rst :: dbl

definition dev_step :: "ticks list \<Rightarrow> dbl \<Rightarrow> band_avgs \<Rightarrow> 32 word \<Rightarrow> band_sums \<Rightarrow> band_sums" where
  "dev_step vals avg b i s =
     (let v = vals ! unat i;
          diff = dbl_sub (dbl_of_ticks v) avg;
          ad = absd diff
      in if dbl_le ad (dev_10p avg)
         then (let ad1 = absd (dbl_sub (dbl_of_ticks v) (b_avg_10p b))
               in s\<lparr>sum_adev_10p := dbl_add (sum_adev_10p s) ad1,
                     sum_stdev_10p := dbl_add (sum_stdev_10p s) (dbl_mul ad1 ad1)\<rparr>)
         else if dbl_le ad (dev_25p avg)
         then (let ad1 = absd (dbl_sub (dbl_of_ticks v) (b_avg_25p b))
               in s\<lparr>sum_adev_25p := dbl_add (sum_adev_25p s) ad1,
                     sum_stdev_25p := dbl_add (sum_stdev_25p s) (dbl_mul ad1 ad1)\<rparr>)
         else if dbl_le ad (dev_50p avg)
         then (let ad1 = absd (dbl_sub (dbl_of_ticks v) (b_avg_50p b))
               in s\<lparr>sum_adev_50p := dbl_add (sum_adev_50p s) ad1,
                     sum_stdev_50p := dbl_add (sum_stdev_50p s) (dbl_mul ad1 ad1)\<rparr>)
         else if dbl_le ad (dev_75p avg)
         then (let ad1 = absd (dbl_sub (dbl_of_ticks v) (b_avg_75p b))
               in s\<lparr>sum_adev_75p := dbl_add (sum_adev_75p s) ad1,
                     sum_stdev_75p := dbl_add (sum_stdev_75p s) (dbl_mul ad1 ad1)\<rparr>)
         else (let ad1 = absd (dbl_sub (dbl_of_ticks v) (b_avg_rst b))
               in s\<lparr>sum_adev_rst := dbl_add (sum_adev_rst s) ad1,
                     sum_stdev_rst := dbl_add (sum_stdev_rst s) (dbl_mul ad1 ad1)\<rparr>))"

text \<open>
  The summary \<open>abs_deviation_t\<close>. Its declaration is in \<open>pfd.h\<close>; the fields are the ones
  \<open>get_abs_deviation\<close> assigns, with the types of the locals they are assigned from.
\<close>

record abs_deviation =
  num_vals :: "64 word"
  avg :: dbl
  avg_10p :: dbl
  avg_25p :: dbl
  avg_50p :: dbl
  avg_75p :: dbl
  avg_rst :: dbl
  abs_dev :: dbl
  abs_dev_10p :: dbl
  abs_dev_25p :: dbl
  abs_dev_50p :: dbl
  abs_dev_75p :: dbl
  abs_dev_rst :: dbl
  std_dev :: dbl
  std_dev_10p :: dbl
  std_dev_25p :: dbl
  std_dev_50p :: dbl
  std_dev_75p :: dbl
  std_dev_rst :: dbl
  min_val :: dbl
  min_val_idx :: "64 word"
  max_val :: dbl
  max_val_idx :: "64 word"
  num_dev_10p :: "32 word"
  num_dev_25p :: "32 word"
  num_dev_50p :: "32 word"
  num_dev_75p :: "32 word"
  num_dev_rst :: "32 word"

definition band_avgs_of :: "locals \<Rightarrow> band_avgs" where
  "band_avgs_of l =
     \<lparr>b_avg_10p = dbl_div (dbl_of_ticks (l_sum_vals_10p l)) (dbl_of_u32 (l_num_dev_10p l)),
      b_avg_25p = dbl_div (dbl_of_ticks (l_sum_vals_25p l)) (dbl_of_u32 (l_num_dev_25p l)),
      b_avg_50p = dbl_div (dbl_of_ticks (l_sum_vals_50p l)) (dbl_of_u32 (l_num_dev_50p l)),
      b_avg_75p = dbl_div (dbl_of_ticks (l_sum_vals_75p l)) (dbl_of_u32 (l_num_dev_75p l)),
      b_avg_rst = dbl_div (dbl_of_ticks (l_sum_vals_rst l)) (dbl_of_u32 (l_num_dev_rst l))\<rparr>"

definition summary :: "nat \<Rightarrow> dbl \<Rightarrow> locals \<Rightarrow> band_avgs \<Rightarrow> band_sums \<Rightarrow> abs_deviation" where
  "summary n a l b d =
     \<lparr>num_vals = of_nat n,
      avg = a,
      avg_10p = b_avg_10p b, avg_25p = b_avg_25p b, avg_50p = b_avg_50p b,
      avg_75p = b_avg_75p b, avg_rst = b_avg_rst b,
      abs_dev = dbl_div (l_sum_adev l) (dbl_of_size n),
      abs_dev_10p = dbl_div (sum_adev_10p d) (dbl_of_u32 (l_num_dev_10p l)),
      abs_dev_25p = dbl_div (sum_adev_25p d) (dbl_of_u32 (l_num_dev_25p l)),
      abs_dev_50p = dbl_div (sum_adev_50p d) (dbl_of_u32 (l_num_dev_50p l)),
      abs_dev_75p = dbl_div (sum_adev_75p d) (dbl_of_u32 (l_num_dev_75p l)),
      abs_dev_rst = dbl_div (sum_adev_rst d) (dbl_of_u32 (l_num_dev_rst l)),
      std_dev = dbl_sqrt (dbl_div (l_sum_stdev l) (dbl_of_size n)),
      std_dev_10p = dbl_sqrt (dbl_div (sum_stdev_10p d) (dbl_of_u32 (l_num_dev_10p l))),
      std_dev_25p = dbl_sqrt (dbl_div (sum_stdev_25p d) (dbl_of_u32 (l_num_dev_25p l))),
      std_dev_50p = dbl_sqrt (dbl_div (sum_stdev_50p d) (dbl_of_u32 (l_num_dev_50p l))),
      std_dev_75p = dbl_sqrt (dbl_div (sum_stdev_75p d) (dbl_of_u32 (l_num_dev_75p l))),
      std_dev_rst = dbl_sqrt (dbl_div (sum_stdev_rst d) (dbl_of_u32 (l_num_dev_rst l))),
      min_val = l_min_val l, min_val_idx = l_min_val_idx l,
      max_val = l_max_val l, max_val_idx = l_max_val_idx l,
      num_dev_10p = l_num_dev_10p l, num_dev_25p = l_num_dev_25p l,
      num_dev_50p = l_num_dev_50p l, num_dev_75p = l_num_dev_75p l,
      num_dev_rst = l_num_dev_rst l\<rparr>"

text \<open>
  \<open>get_abs_deviation\<close>: the array \<open>vals\<close> holds \<open>num_vals\<close> samples. The result is the
  array as the function leaves it and the summary.
\<close>

definition get_abs_deviation :: "ticks list \<Rightarrow> (ticks list \<times> abs_deviation) option" where
  "get_abs_deviation vals0 =
     (case for_loop clip_step (length vals0) 0 (vals0, 0) of
        None \<Rightarrow> None
      | Some (vals, sum_vals) \<Rightarrow>
          (let a = dbl_div (dbl_of_ticks sum_vals) (dbl_of_size (length vals0)) in
           case for_loop (band_step vals a) (length vals0) 0 locals_init of
             None \<Rightarrow> None
           | Some l \<Rightarrow>
               (case for_loop (dev_step vals a (band_avgs_of l)) (length vals0) 0 band_sums_init of
                  None \<Rightarrow> None
                | Some d \<Rightarrow> Some (vals, summary (length vals0) a l (band_avgs_of l) d))))"

section \<open>The median of the non-zero samples\<close>

definition ticks_compare :: "ticks \<Rightarrow> ticks \<Rightarrow> int" where
  "ticks_compare a b = (if a < b then - 1 else if a > b then 1 else 0)"

text \<open>
  \<open>qsort\<close> is the C library's. It leaves the array in ascending order of the comparison
  function; \<open>ticks_compare\<close> is a total order in which only identical values compare
  equal, so every sorting algorithm leaves the same array. The model sorts by insertion.
\<close>

fun qsort_insert :: "('a \<Rightarrow> 'a \<Rightarrow> int) \<Rightarrow> 'a \<Rightarrow> 'a list \<Rightarrow> 'a list" where
  "qsort_insert cmp x [] = [x]"
| "qsort_insert cmp x (y # ys) =
     (if cmp x y \<le> 0 then x # y # ys else y # qsort_insert cmp x ys)"

fun qsort :: "('a \<Rightarrow> 'a \<Rightarrow> int) \<Rightarrow> 'a list \<Rightarrow> 'a list" where
  "qsort cmp [] = []"
| "qsort cmp (x # xs) = qsort_insert cmp x (qsort cmp xs)"

text \<open>
  \<open>median_non_zero_ticks\<close>: \<open>samples\<close> holds \<open>num_entries\<close> values; \<open>malloc_ok\<close> tells
  whether the allocation of the scratch array succeeds.
\<close>

definition median_non_zero_ticks :: "bool \<Rightarrow> ticks list \<Rightarrow> dbl" where
  "median_non_zero_ticks malloc_ok samples =
     (if length samples = 0 then NaN
      else if \<not> malloc_ok then NaN
      else
        (let scratch = filter (\<lambda>v. v \<noteq> 0) samples;
             count = length scratch
         in if count = 0 then NaN
            else
              (let sorted = qsort ticks_compare scratch
               in if count mod 2 = 0
                  then dbl_div (dbl_add (dbl_of_ticks (sorted ! (count div 2 - 1)))
                                        (dbl_of_ticks (sorted ! (count div 2))))
                               (Finite 2)
                  else dbl_of_ticks (sorted ! (count div 2)))))"

section \<open>The direct measurement of the counter\<close>

text \<open>
  \<open>getticks\<close> reads the cycle counter; it is declared outside the sources at hand. The
  model takes the readings from the environment: \<open>clk n\<close> is the value of the \<open>n\<close>-th
  reading, and the number of readings taken so far is threaded through.
\<close>

fun measure_loop :: "(nat \<Rightarrow> ticks) \<Rightarrow> nat \<Rightarrow> nat \<Rightarrow> ticks \<Rightarrow> ticks \<times> nat" where
  "measure_loop clk 0 pos best = (best, pos)"
| "measure_loop clk (Suc k) pos best =
     (let start = clk pos;
          end = clk (pos + 1);
          delta = end - start
      in measure_loop clk k (pos + 2) (if delta > 0 \<and> delta < best then delta else best))"

definition measure_minimum_tick_delta :: "(nat \<Rightarrow> ticks) \<Rightarrow> 32 word \<Rightarrow> nat \<Rightarrow> ticks \<times> nat" where
  "measure_minimum_tick_delta clk attempts pos =
     (let r = measure_loop clk (unat attempts) pos UINT64_MAX
      in (if fst r = UINT64_MAX then 0 else fst r, snd r))"

section \<open>Initialisation and calibration\<close>

text \<open>The build-time hardware profile (the preprocessor symbol that is defined).\<close>

datatype arch = OPTERON | OPTERON2 | XEON | XEON2 | NIAGARA | RYZEN53600 | I3_7020U | Other_arch

definition PFD_CONSERVATIVE_DEFAULT :: dbl where
  "PFD_CONSERVATIVE_DEFAULT = Finite 32"

definition PFD_CORRECTION_CONF :: dbl where
  "PFD_CORRECTION_CONF = Finite 3"

text \<open>The lines the function prints, in the order of the program text.\<close>

datatype msg =
    Warn_recalculating dbl dbl
  | Warn_manual
  | Warn_median dbl
  | Warn_unknown_arch
  | Warn_non_finite
  | Warn_direct_delta ticks
  | Warn_le_zero_default
  | Warn_clamp_one
  | Warn_clamp_max
  | Warn_rounded_zero
  | Warn_enforcing ticks
  | Warn_fallback ticks
  | Set_correction ticks dbl

fun is_warning :: "msg \<Rightarrow> bool" where
  "is_warning (Set_correction c q) = False"
| "is_warning m = True"

text \<open>
  What the function takes from its surroundings.
  \<^item> \<open>alloc_ok\<close>: the allocations of the store succeed.
  \<^item> \<open>scratch_ok\<close>: the allocation inside \<open>median_non_zero_ticks\<close> succeeds.
  \<^item> \<open>round_delta k i\<close>: the value that measurement round \<open>k\<close> (counted from 0) stores at
    index \<open>i\<close> of slot 0. The macros \<open>PFDI\<close> and \<open>PFDO\<close> that take the two readings and
    store their difference are defined in \<open>pfd.h\<close>, outside the sources at hand.
  \<^item> \<open>clock\<close>: the readings \<open>measure_minimum_tick_delta\<close> gets from \<open>getticks\<close>.
\<close>

record env =
  alloc_ok :: bool
  scratch_ok :: bool
  round_delta :: "nat \<Rightarrow> nat \<Rightarrow> ticks"
  clock :: "nat \<Rightarrow> ticks"

definition round_samples :: "env \<Rightarrow> 32 word \<Rightarrow> nat \<Rightarrow> ticks list" where
  "round_samples e num_entries k = map (round_delta e k) [0..<unat num_entries]"

text \<open>The thread-local state: the correction and slot 0 of the store.\<close>

record pfd_state =
  pfd_correction :: ticks
  pfd_store_0 :: "ticks list"

datatype error = Assert_alloc | Undefined_conversion | Assert_correction

text \<open>The quality percentage of a round.\<close>

definition std_pp_of :: "abs_deviation \<Rightarrow> dbl" where
  "std_pp_of ad =
     (if isfinite (avg ad) \<and> dbl_ne (avg ad) (Finite 0)
      then dbl_mul (Finite 100)
             (dbl_sub (Finite 1) (dbl_div (dbl_sub (avg ad) (std_dev ad)) (avg ad)))
      else NaN)"

fun arch_default :: "arch \<Rightarrow> dbl" where
  "arch_default OPTERON = Finite 64"
| "arch_default OPTERON2 = Finite 68"
| "arch_default XEON = Finite 20"
| "arch_default XEON2 = Finite 20"
| "arch_default NIAGARA = Finite 76"
| "arch_default RYZEN53600 = Finite 32"
| "arch_default I3_7020U = Finite 25"
| "arch_default Other_arch = PFD_CONSERVATIVE_DEFAULT"

text \<open>What the retry loop hands on: slot 0, the summary, the quality, the output so far
  and the number of measurement rounds that were run.\<close>

record calibration =
  c_vals :: "ticks list"
  c_ad :: abs_deviation
  c_std_pp :: dbl
  c_log :: "msg list"
  c_rounds :: nat

text \<open>The branch taken when the retries are used up (\<open>setting pfd correction manually\<close>).\<close>

definition manual_correction ::
  "env \<Rightarrow> arch \<Rightarrow> ticks list \<Rightarrow> abs_deviation \<Rightarrow> msg list \<Rightarrow> abs_deviation \<times> msg list" where
  "manual_correction e a vals ad out =
     (let out1 = out @ [Warn_manual];
          manual_avg = median_non_zero_ticks (scratch_ok e) vals
      in if isfinite manual_avg \<and> dbl_gt manual_avg (Finite 0)
         then (ad\<lparr>avg := manual_avg\<rparr>, out1 @ [Warn_median manual_avg])
         else (ad\<lparr>avg := arch_default a\<rparr>,
               if a = Other_arch then out1 @ [Warn_unknown_arch] else out1))"

text \<open>
  The loop formed by the label \<open>retry\<close>: \<open>tries\<close> and \<open>print_warning\<close> are the two
  counters of the function, \<open>k\<close> counts the measurement rounds.
\<close>

function retry :: "env \<Rightarrow> arch \<Rightarrow> 32 word \<Rightarrow> int \<Rightarrow> 32 word \<Rightarrow> nat \<Rightarrow> msg list
    \<Rightarrow> calibration option" where
  "retry e a num_entries tries print_warning k out =
     (case get_abs_deviation (round_samples e num_entries k) of
        None \<Rightarrow> None
      | Some (vals, ad) \<Rightarrow>
          (let std_pp = std_pp_of ad in
           if dbl_gt std_pp PFD_CORRECTION_CONF
           then
             (let out1 = (if print_warning = 1
                          then out @ [Warn_recalculating (avg ad)
                                        (if isfinite std_pp then std_pp else Finite 0)]
                          else out)
              in if tries > 0
                 then retry e a num_entries (tries - 1) (print_warning + 1) (k + 1) out1
                 else (let m = manual_correction e a vals ad out1
                       in Some \<lparr>c_vals = vals, c_ad = fst m, c_std_pp = std_pp,
                                c_log = snd m, c_rounds = k + 1\<rparr>))
           else Some \<lparr>c_vals = vals, c_ad = ad, c_std_pp = std_pp, c_log = out,
                      c_rounds = k + 1\<rparr>))"
  by pat_completeness auto
termination
  by (relation "measure (\<lambda>(e, a, n, tries, pw, k, out). nat tries)") auto

declare retry.simps [simp del]

text \<open>The state of the second half of the function.\<close>

record fixing =
  f_corrected_avg :: dbl
  f_pos :: nat
  f_log :: "msg list"

text \<open>Making the chosen average usable: not finite, not positive, below one.\<close>

definition sanitize_avg :: "env \<Rightarrow> dbl \<Rightarrow> nat \<Rightarrow> msg list \<Rightarrow> fixing" where
  "sanitize_avg e corrected_avg pos out =
     (if \<not> isfinite corrected_avg
      then \<lparr>f_corrected_avg = PFD_CONSERVATIVE_DEFAULT, f_pos = pos,
            f_log = out @ [Warn_non_finite]\<rparr>
      else if dbl_le corrected_avg (Finite 0)
      then (let m = measure_minimum_tick_delta (clock e) 64 pos;
                measured = fst m
            in if measured > 0
               then \<lparr>f_corrected_avg = dbl_of_ticks measured, f_pos = snd m,
                     f_log = out @ [Warn_direct_delta measured]\<rparr>
               else \<lparr>f_corrected_avg = PFD_CONSERVATIVE_DEFAULT, f_pos = snd m,
                     f_log = out @ [Warn_le_zero_default]\<rparr>)
      else if dbl_lt corrected_avg (Finite 1)
      then \<lparr>f_corrected_avg = Finite 1, f_pos = pos, f_log = out @ [Warn_clamp_one]\<rparr>
      else \<lparr>f_corrected_avg = corrected_avg, f_pos = pos, f_log = out\<rparr>)"

text \<open>The conversion to \<open>ticks\<close>: the pair of the correction and the corrected average,
  with the output.\<close>

definition round_correction :: "dbl \<Rightarrow> msg list \<Rightarrow> error + (ticks \<times> dbl \<times> msg list)" where
  "round_correction corrected_avg out =
     (if dbl_ge corrected_avg (dbl_of_ticks UINT64_MAX)
      then Inr (UINT64_MAX, dbl_of_ticks UINT64_MAX, out @ [Warn_clamp_max])
      else
        (case ticks_of_dbl (dbl_add corrected_avg (Finite (1 / 2))) of
           None \<Rightarrow> Inl Undefined_conversion
         | Some correction \<Rightarrow>
             if correction = 0
             then Inr (1, dbl_of_ticks 1, out @ [Warn_rounded_zero])
             else Inr (correction, corrected_avg, out)))"

text \<open>The last guard before the assertion: the correction, the quality and the output.\<close>

definition enforce_positive ::
  "env \<Rightarrow> ticks \<Rightarrow> dbl \<Rightarrow> nat \<Rightarrow> msg list \<Rightarrow> error + (ticks \<times> dbl \<times> msg list)" where
  "enforce_positive e correction std_pp pos out =
     (if correction \<le> 0
      then
        (let measured = fst (measure_minimum_tick_delta (clock e) 64 pos);
             std_pp1 = (if \<not> isfinite std_pp then Finite 0 else std_pp)
         in if measured > 0
            then Inr (measured, std_pp1, out @ [Warn_enforcing measured])
            else
              (case ticks_of_dbl (dbl_add PFD_CONSERVATIVE_DEFAULT (Finite (1 / 2))) of
                 None \<Rightarrow> Inl Undefined_conversion
               | Some c \<Rightarrow>
                   (let c1 = (if c = 0 then 1 else c)
                    in Inr (c1, std_pp1, out @ [Warn_fallback c1]))))
      else Inr (correction, std_pp, out))"

text \<open>What a call that returns leaves behind: the state and the output.\<close>

record init_result =
  state :: pfd_state
  printed :: "msg list"
  rounds :: nat

text \<open>
  \<open>pfd_store_init\<close>. \<open>old\<close> is the thread-local state found at the call: the function
  frees the store, allocates a new one and sets the correction to 0 before it measures.
  The delay loop that raises the clock frequency on some profiles has no effect on the
  result. \<open>None\<close>: the call does not return.
\<close>

definition pfd_store_init ::
  "env \<Rightarrow> arch \<Rightarrow> pfd_state \<Rightarrow> 32 word \<Rightarrow> (error + init_result) option" where
  "pfd_store_init e a old num_entries =
     (if \<not> alloc_ok e then Some (Inl Assert_alloc)
      else
        (case retry e a num_entries 10 0 0 [] of
           None \<Rightarrow> None
         | Some c \<Rightarrow>
             (let ad = c_ad c;
                  fx = sanitize_avg e (avg ad) 0 (c_log c)
              in case round_correction (f_corrected_avg fx) (f_log fx) of
                   Inl err \<Rightarrow> Some (Inl err)
                 | Inr (correction, corrected_avg, out1) \<Rightarrow>
                     (let out2 = (if dbl_le (avg ad) (Finite 0)
                                  then out1 @ [Warn_le_zero_default] else out1)
                      in case enforce_positive e correction (c_std_pp c) (f_pos fx) out2 of
                           Inl err \<Rightarrow> Some (Inl err)
                         | Inr (correction1, std_pp, out3) \<Rightarrow>
                             if \<not> correction1 > 0 then Some (Inl Assert_correction)
                             else Some (Inr
                               \<lparr>state = \<lparr>pfd_correction = correction1,
                                          pfd_store_0 = c_vals c\<rparr>,
                                printed = out3 @ [Set_correction correction1
                                           (if isfinite std_pp then std_pp else Finite 0)],
                                rounds = c_rounds c\<rparr>)))))"

section \<open>What the loops compute\<close>

text \<open>
  The following constants are not part of the program: they name what its loops compute,
  so that the lemmas about \<open>get_abs_deviation\<close> can be stated. \<open>clipped v\<close> is the value
  the first loop leaves in place of the sample \<open>v\<close>; \<open>band_locals vals a n\<close> and
  \<open>band_devs vals a b n\<close> are the locals after \<open>n\<close> rounds of the second and of the
  third loop.
\<close>

definition clipped :: "ticks \<Rightarrow> ticks" where
  "clipped v = (if sint v < 0 \<or> v > PFD_VAL_UP_LIMIT then 0 else v)"

definition band_locals :: "ticks list \<Rightarrow> dbl \<Rightarrow> nat \<Rightarrow> locals" where
  "band_locals vals a n = fold (\<lambda>k. band_step vals a (of_nat k)) [0..<n] locals_init"

definition band_devs :: "ticks list \<Rightarrow> dbl \<Rightarrow> band_avgs \<Rightarrow> nat \<Rightarrow> band_sums" where
  "band_devs vals a b n = fold (\<lambda>k. dev_step vals a b (of_nat k)) [0..<n] band_sums_init"

text \<open>
  Likewise for the calibration: \<open>round_quality e n k\<close> is the quality percentage that
  \<open>pfd_store_init\<close> computes from measurement round \<open>k\<close>, and \<open>round_fails e n k\<close>
  tells that the round is not accepted (the quality exceeds \<open>PFD_CORRECTION_CONF\<close>).
  \<open>is_recalculating\<close> recognises the warning printed at the second failed attempt.
\<close>

definition round_quality :: "env \<Rightarrow> 32 word \<Rightarrow> nat \<Rightarrow> dbl" where
  "round_quality e n k =
     (case get_abs_deviation (round_samples e n k) of
        None \<Rightarrow> NaN
      | Some r \<Rightarrow> std_pp_of (snd r))"

definition round_fails :: "env \<Rightarrow> 32 word \<Rightarrow> nat \<Rightarrow> bool" where
  "round_fails e n k = dbl_gt (round_quality e n k) PFD_CORRECTION_CONF"

fun is_recalculating :: "msg \<Rightarrow> bool" where
  "is_recalculating (Warn_recalculating x y) = True"
| "is_recalculating m = False"

text \<open>
  Environments for worked examples: every measurement round stores the samples \<open>xs\<close>,
  all allocations succeed, and the counter either stands still or advances by 7 between
  two readings.
\<close>

definition samples_env :: "ticks list \<Rightarrow> (nat \<Rightarrow> ticks) \<Rightarrow> env" where
  "samples_env xs clk =
     \<lparr>alloc_ok = True, scratch_ok = True, round_delta = (\<lambda>k i. xs ! i), clock = clk\<rparr>"

definition stuck_clock :: "nat \<Rightarrow> ticks" where
  "stuck_clock n = 0"

definition ticking_clock :: "nat \<Rightarrow> ticks" where
  "ticking_clock n = of_nat (7 * n)"

text \<open>A counter that advances by \<open>2 ^ 52 + 1\<close> between two readings.\<close>

definition striding_clock :: "nat \<Rightarrow> ticks" where
  "striding_clock n = of_nat n * 4503599627370497"

definition fresh_state :: pfd_state where
  "fresh_state = \<lparr>pfd_correction = 0, pfd_store_0 = []\<rparr>"

text \<open>\<open>first_delta e\<close> is what the first call of \<open>measure_minimum_tick_delta\<close> returns
  when it is made before any other reading of the counter.\<close>

definition first_delta :: "env \<Rightarrow> ticks" where
  "first_delta e = fst (measure_minimum_tick_delta (clock e) 64 0)"

section \<open>Rounding to binary64\<close>

lemma rne_of_int [simp]: "rne (of_int k) = k"
  by (simp add: rne_def)

lemma rne_cases:
  "rne y = \<lfloor>y\<rfloor> \<and> y - of_int \<lfloor>y\<rfloor> \<le> 1 / 2 \<or> rne y = \<lfloor>y\<rfloor> + 1 \<and> 1 / 2 \<le> y - of_int \<lfloor>y\<rfloor>"
  by (auto simp: rne_def Let_def)

lemma rne_lower: "y - 1 / 2 \<le> of_int (rne y)"
  using rne_cases [of y] by (auto simp: ) linarith+

lemma rne_upper: "of_int (rne y) \<le> y + 1 / 2"
  using rne_cases [of y] by (auto simp: ) linarith+

lemma rne_mono: "x \<le> y \<Longrightarrow> rne x \<le> rne y"
proof -
  assume xy: "x \<le> y"
  then have f: "\<lfloor>x\<rfloor> \<le> \<lfloor>y\<rfloor>" by (rule floor_mono)
  show ?thesis
  proof (cases "\<lfloor>x\<rfloor> = \<lfloor>y\<rfloor>")
    case True
    then have "x - of_int \<lfloor>x\<rfloor> \<le> y - of_int \<lfloor>y\<rfloor>" using xy by simp
    then show ?thesis using True by (auto simp: rne_def Let_def)
  next
    case False
    with f have "\<lfloor>x\<rfloor> + 1 \<le> \<lfloor>y\<rfloor>" by simp
    moreover have "rne x \<le> \<lfloor>x\<rfloor> + 1" using rne_cases [of x] by auto
    moreover have "\<lfloor>y\<rfloor> \<le> rne y" using rne_cases [of y] by auto
    ultimately show ?thesis by linarith
  qed
qed

lemma rne_minus: "rne (- y) = - rne y"
proof (cases "y = of_int \<lfloor>y\<rfloor>")
  case True
  then obtain k where "y = of_int k" ..
  then show ?thesis by (simp del: of_int_minus add: of_int_minus [symmetric])
next
  case False
  then have "y \<notin> \<int>" by (metis Ints_cases floor_of_int)
  with False have fl: "\<lfloor>- y\<rfloor> = - \<lfloor>y\<rfloor> - 1"
    by (simp add: floor_minus ceiling_altdef)
  have ev: "even (- \<lfloor>y\<rfloor> - 1) \<longleftrightarrow> odd \<lfloor>y\<rfloor>" by simp
  show ?thesis
    unfolding rne_def Let_def fl ev by (auto simp: field_simps)
qed


lemma rne_0 [simp]: "rne 0 = 0"
  using rne_of_int [of 0] by simp

lemma floor_log2_iff:
  assumes "0 < x"
  shows "\<lfloor>log 2 x\<rfloor> = k \<longleftrightarrow> 2 powi k \<le> x \<and> x < 2 powi (k + 1)"
proof -
  have a: "2 powr real_of_int j = (2::real) powi j" for j
    by (simp add: powr_real_of_int')
  have b: "(1::real) < 2" by simp
  show ?thesis
    unfolding floor_log_eq_powr_iff [OF assms b] a by (rule refl)
qed

lemma binade:
  assumes "x \<noteq> 0"
  shows "2 powi \<lfloor>log 2 \<bar>x\<bar>\<rfloor> \<le> \<bar>x\<bar>" and "\<bar>x\<bar> < 2 powi (\<lfloor>log 2 \<bar>x\<bar>\<rfloor> + 1)"
proof -
  have p: "0 < \<bar>x\<bar>" using assms by simp
  from floor_log2_iff [OF p, of "\<lfloor>log 2 \<bar>x\<bar>\<rfloor>"]
  show "2 powi \<lfloor>log 2 \<bar>x\<bar>\<rfloor> \<le> \<bar>x\<bar>" and "\<bar>x\<bar> < 2 powi (\<lfloor>log 2 \<bar>x\<bar>\<rfloor> + 1)"
    by blast+
qed

lemma floor_log_unique:
  assumes "2 powi e \<le> \<bar>x\<bar>" "\<bar>x\<bar> < 2 powi (e + 1)"
  shows "\<lfloor>log 2 \<bar>x\<bar>\<rfloor> = e"
proof -
  have "0 < (2::real) powi e" by simp
  with assms(1) have p: "0 < \<bar>x\<bar>" by linarith
  show ?thesis
    unfolding floor_log2_iff [OF p] using assms by (rule conjI)
qed

lemma ulp_exp_ge: "- 1074 \<le> ulp_exp x"
  by (simp add: ulp_exp_def)

lemma ulp_exp_upper:
  assumes "x \<noteq> 0"
  shows "\<bar>x\<bar> < 2 powi (ulp_exp x + 53)"
proof -
  have "\<lfloor>log 2 \<bar>x\<bar>\<rfloor> + 1 \<le> ulp_exp x + 53" by (simp add: ulp_exp_def)
  then have "2 powi (\<lfloor>log 2 \<bar>x\<bar>\<rfloor> + 1) \<le> (2::real) powi (ulp_exp x + 53)"
    by (intro power_int_increasing) simp_all
  with binade(2) [OF assms] show ?thesis by linarith
qed

lemma ulp_exp_lower:
  assumes "x \<noteq> 0" "- 1074 < ulp_exp x"
  shows "2 powi (ulp_exp x + 52) \<le> \<bar>x\<bar>"
proof -
  from assms(2) have "ulp_exp x + 52 = \<lfloor>log 2 \<bar>x\<bar>\<rfloor>"
    by (simp add: ulp_exp_def max_def split: if_splits)
  with binade(1) [OF assms(1)] show ?thesis by simp
qed

lemma ulp_exp_eq:
  assumes "- 1022 \<le> e" "2 powi e \<le> \<bar>x\<bar>" "\<bar>x\<bar> < 2 powi (e + 1)"
  shows "ulp_exp x = e - 52"
  using floor_log_unique [OF assms(2,3)] assms(1) by (simp add: ulp_exp_def)

lemma ulp_exp_minus [simp]: "ulp_exp (- x) = ulp_exp x"
  by (simp add: ulp_exp_def)

lemma ulp_exp_mono:
  assumes "0 < x" "x \<le> y"
  shows "ulp_exp x \<le> ulp_exp y"
proof -
  have "log 2 \<bar>x\<bar> \<le> log 2 \<bar>y\<bar>" using assms by simp
  then have "\<lfloor>log 2 \<bar>x\<bar>\<rfloor> \<le> \<lfloor>log 2 \<bar>y\<bar>\<rfloor>" by (rule floor_mono)
  then show ?thesis by (simp add: ulp_exp_def)
qed

lemma r64_0 [simp]: "r64 0 = 0"
  by (simp add: r64_def)

lemma r64_minus: "r64 (- x) = - r64 x"
  by (simp add: r64_def rne_minus)

lemma r64_nonneg:
  assumes "0 \<le> x"
  shows "0 \<le> r64 x"
proof -
  have "0 \<le> x / 2 powi ulp_exp x" using assms by simp
  then have "rne 0 \<le> rne (x / 2 powi ulp_exp x)" by (rule rne_mono)
  then show ?thesis by (simp add: r64_def)
qed

lemma two_powi_split:
  assumes "p \<le> q"
  shows "(2::real) powi q = 2 ^ nat (q - p) * 2 powi p"
proof -
  have "(2::real) powi q = 2 powi ((q - p) + p)" by simp
  also have "\<dots> = 2 powi (q - p) * 2 powi p" by (rule power_int_add) simp
  also have "2 powi (q - p) = (2::real) ^ nat (q - p)"
    using assms by (simp add: power_int_def)
  finally show ?thesis .
qed

lemma r64_exact_aux:
  assumes "\<bar>m\<bar> < 2 ^ 53" "- 1074 \<le> q"
  shows "r64 (of_int m * 2 powi q) = of_int m * 2 powi q"
proof (cases "m = 0")
  case True
  then show ?thesis by simp
next
  case False
  define x where "x = real_of_int m * 2 powi q"
  define p where "p = ulp_exp x"
  have x0: "x \<noteq> 0" using False by (simp add: x_def)
  have ax: "\<bar>x\<bar> = real_of_int \<bar>m\<bar> * 2 powi q" by (simp add: x_def abs_mult)
  have pq: "p \<le> q"
  proof (rule ccontr)
    assume "\<not> p \<le> q"
    then have qp: "q + 53 \<le> p + 52" by simp
    with assms(2) have "- 1074 < ulp_exp x" by (simp add: p_def)
    from ulp_exp_lower [OF x0 this] have "2 powi (p + 52) \<le> \<bar>x\<bar>" by (simp only: p_def)
    moreover have "real_of_int \<bar>m\<bar> < 2 ^ 53"
      using assms(1) by (metis of_int_less_numeral_power_cancel_iff)
    then have "\<bar>x\<bar> < 2 ^ 53 * 2 powi q" unfolding ax by simp
    moreover have "(2::real) ^ 53 * 2 powi q = 2 powi (q + 53)"
      by (simp add: power_int_add)
    moreover have "(2::real) powi (q + 53) \<le> 2 powi (p + 52)"
      using qp by (intro power_int_increasing) simp_all
    ultimately show False by linarith
  qed
  have sp: "(2::real) powi q = 2 ^ nat (q - p) * 2 powi p" by (rule two_powi_split [OF pq])
  have "x / 2 powi p = real_of_int m * 2 ^ nat (q - p)"
    unfolding x_def sp by simp
  also have "\<dots> = real_of_int (m * 2 ^ nat (q - p))" by simp
  finally have "rne (x / 2 powi p) = m * 2 ^ nat (q - p)"
    by (simp only: rne_of_int)
  then have "r64 x = real_of_int (m * 2 ^ nat (q - p)) * 2 powi p"
    using x0 by (simp only: r64_def if_False p_def)
  also have "\<dots> = real_of_int m * (2 ^ nat (q - p) * 2 powi p)" by simp
  also have "\<dots> = x" by (simp only: sp [symmetric] x_def)
  finally show ?thesis by (simp only: x_def)
qed

lemma r64_exact:
  assumes "\<bar>m\<bar> \<le> 2 ^ 53" "- 1074 \<le> q"
  shows "r64 (of_int m * 2 powi q) = of_int m * 2 powi q"
proof (cases "\<bar>m\<bar> < 2 ^ 53")
  case True
  then show ?thesis using assms(2) by (rule r64_exact_aux)
next
  case False
  define k :: int where "k = 2 ^ 52"
  have k2: "2 * k = 2 ^ 53" by (simp add: k_def)
  have kb: "\<bar>k\<bar> < 2 ^ 53" "\<bar>- k\<bar> < 2 ^ 53" by (simp_all add: k_def)
  have q1: "- 1074 \<le> q + 1" using assms(2) by simp
  have p1: "2 powi (q + 1) = 2 powi q * (2::real)" by (rule power_int_add_1) simp
  from False assms(1) have "\<bar>m\<bar> = 2 * k" unfolding k2 by simp
  then have "m = 2 * k \<or> m = - (2 * k)" by linarith
  then show ?thesis
  proof
    assume "m = 2 * k"
    then have "real_of_int m * 2 powi q = real_of_int k * 2 powi (q + 1)"
      by (simp add: p1)
    then show ?thesis by (simp only: r64_exact_aux [OF kb(1) q1])
  next
    assume "m = - (2 * k)"
    then have "real_of_int m * 2 powi q = real_of_int (- k) * 2 powi (q + 1)"
      by (simp add: p1)
    then show ?thesis by (simp only: r64_exact_aux [OF kb(2) q1])
  qed
qed


lemma r64_pos_upper:
  assumes "0 < x"
  shows "r64 x \<le> 2 powi (ulp_exp x + 53)"
proof -
  define p where "p = ulp_exp x"
  have x0: "x \<noteq> 0" using assms by simp
  have s: "(2::real) powi (p + 53) = 2 ^ 53 * 2 powi p" by (simp add: power_int_add)
  have "\<bar>x\<bar> < 2 powi (p + 53)" unfolding p_def by (rule ulp_exp_upper [OF x0])
  then have "x < 2 ^ 53 * 2 powi p" unfolding s using assms by simp
  then have "x / 2 powi p < 2 ^ 53" by (simp add: pos_divide_less_eq)
  then have "x / 2 powi p \<le> real_of_int (2 ^ 53)" by simp
  then have "rne (x / 2 powi p) \<le> rne (real_of_int (2 ^ 53))" by (rule rne_mono)
  then have "rne (x / 2 powi p) \<le> 2 ^ 53" by (simp only: rne_of_int)
  then have "real_of_int (rne (x / 2 powi p)) \<le> 2 ^ 53"
    by (metis of_int_le_numeral_power_cancel_iff)
  then have "real_of_int (rne (x / 2 powi p)) * 2 powi p \<le> 2 ^ 53 * 2 powi p"
    by (rule mult_right_mono) simp
  then show ?thesis
    using x0 by (simp only: r64_def if_False p_def [symmetric] s)
qed

lemma r64_pos_lower:
  assumes "0 < x" "- 1074 < ulp_exp x"
  shows "2 powi (ulp_exp x + 52) \<le> r64 x"
proof -
  define p where "p = ulp_exp x"
  have x0: "x \<noteq> 0" using assms by simp
  have s: "(2::real) powi (p + 52) = 2 ^ 52 * 2 powi p" by (simp add: power_int_add)
  have "2 powi (p + 52) \<le> \<bar>x\<bar>" unfolding p_def by (rule ulp_exp_lower [OF x0 assms(2)])
  then have "2 ^ 52 * 2 powi p \<le> x" unfolding s using assms by simp
  then have "2 ^ 52 \<le> x / 2 powi p" by (simp add: pos_le_divide_eq)
  then have "real_of_int (2 ^ 52) \<le> x / 2 powi p" by simp
  then have "rne (real_of_int (2 ^ 52)) \<le> rne (x / 2 powi p)" by (rule rne_mono)
  then have "2 ^ 52 \<le> rne (x / 2 powi p)" by (simp only: rne_of_int)
  then have "2 ^ 52 \<le> real_of_int (rne (x / 2 powi p))"
    by (metis numeral_power_le_of_int_cancel_iff)
  then have "2 ^ 52 * 2 powi p \<le> real_of_int (rne (x / 2 powi p)) * 2 powi p"
    by (rule mult_right_mono) simp
  then show ?thesis
    using x0 by (simp only: r64_def if_False p_def [symmetric] s)
qed

lemma r64_mono_pos:
  assumes "0 < x" "x \<le> y"
  shows "r64 x \<le> r64 y"
proof (cases "ulp_exp x = ulp_exp y")
  case True
  define p where "p = ulp_exp y"
  have "x / 2 powi p \<le> y / 2 powi p" using assms(2) by (simp add: divide_right_mono)
  then have "rne (x / 2 powi p) \<le> rne (y / 2 powi p)" by (rule rne_mono)
  then have "real_of_int (rne (x / 2 powi p)) \<le> real_of_int (rne (y / 2 powi p))" by simp
  then have "real_of_int (rne (x / 2 powi p)) * 2 powi p \<le> real_of_int (rne (y / 2 powi p)) * 2 powi p"
    by (rule mult_right_mono) simp
  moreover have "x \<noteq> 0" "y \<noteq> 0" using assms by simp_all
  ultimately show ?thesis
    by (simp only: r64_def if_False True p_def [symmetric])
next
  case False
  with ulp_exp_mono [OF assms] have lt: "ulp_exp x < ulp_exp y" by simp
  have y: "0 < y" using assms by simp
  have "- 1074 \<le> ulp_exp x" by (rule ulp_exp_ge)
  with lt have "- 1074 < ulp_exp y" by simp
  from r64_pos_lower [OF y this] have "2 powi (ulp_exp y + 52) \<le> r64 y" .
  moreover have "r64 x \<le> 2 powi (ulp_exp x + 53)" by (rule r64_pos_upper [OF assms(1)])
  moreover have "(2::real) powi (ulp_exp x + 53) \<le> 2 powi (ulp_exp y + 52)"
    using lt by (intro power_int_increasing) simp_all
  ultimately show ?thesis by linarith
qed

lemma r64_mono:
  assumes "x \<le> y"
  shows "r64 x \<le> r64 y"
proof (cases "0 < x")
  case True
  then show ?thesis using assms by (rule r64_mono_pos)
next
  case False
  then have "0 \<le> - x" by simp
  then have "0 \<le> r64 (- x)" by (rule r64_nonneg)
  then have x: "r64 x \<le> 0" by (simp add: r64_minus)
  show ?thesis
  proof (cases "0 \<le> y")
    case True
    then have "0 \<le> r64 y" by (rule r64_nonneg)
    with x show ?thesis by simp
  next
    case False
    then have "0 < - y" "- y \<le> - x" using assms by simp_all
    then have "r64 (- y) \<le> r64 (- x)" by (rule r64_mono_pos)
    then show ?thesis by (simp add: r64_minus)
  qed
qed

lemma r64_form: "\<exists>m p. r64 x = real_of_int m * 2 powi p \<and> \<bar>m\<bar> \<le> 2 ^ 53 \<and> - 1074 \<le> p"
proof (cases "x = 0")
  case True
  have "r64 x = real_of_int 0 * 2 powi 0 \<and> \<bar>0 :: int\<bar> \<le> 2 ^ 53 \<and> (- 1074 :: int) \<le> 0"
    using True by simp
  then show ?thesis by blast
next
  case False
  define p where "p = ulp_exp x"
  define m where "m = rne (x / 2 powi p)"
  have s: "(2::real) powi (p + 53) = 2 ^ 53 * 2 powi p" by (simp add: power_int_add)
  have "\<bar>x\<bar> < 2 ^ 53 * 2 powi p"
    using ulp_exp_upper [OF False] by (simp only: p_def [symmetric] s)
  then have "\<bar>x\<bar> / 2 powi p < 2 ^ 53" by (simp add: pos_divide_less_eq)
  then have "\<bar>x / 2 powi p\<bar> < 2 ^ 53" by simp
  then have "- (2 ^ 53) \<le> x / 2 powi p \<and> x / 2 powi p \<le> 2 ^ 53" by linarith
  then have b: "real_of_int (- (2 ^ 53)) \<le> x / 2 powi p" "x / 2 powi p \<le> real_of_int (2 ^ 53)"
    by simp_all
  have "rne (real_of_int (- (2 ^ 53))) \<le> m" "m \<le> rne (real_of_int (2 ^ 53))"
    unfolding m_def by (rule rne_mono [OF b(1)]) (rule rne_mono [OF b(2)])
  then have "- (2 ^ 53) \<le> m" "m \<le> 2 ^ 53" by (simp_all only: rne_of_int)
  then have "\<bar>m\<bar> \<le> 2 ^ 53" by simp
  moreover have "r64 x = real_of_int m * 2 powi p"
    using False by (simp only: r64_def if_False m_def p_def)
  moreover have "- 1074 \<le> p" unfolding p_def by (rule ulp_exp_ge)
  ultimately show ?thesis by blast
qed

lemma r64_idem [simp]: "r64 (r64 x) = r64 x"
proof -
  obtain m p where "r64 x = real_of_int m * 2 powi p" "\<bar>m\<bar> \<le> 2 ^ 53" "- 1074 \<le> p"
    using r64_form by blast
  then show ?thesis by (simp only: r64_exact)
qed

lemma r64_error: "\<bar>r64 x - x\<bar> \<le> 2 powi ulp_exp x / 2"
proof (cases "x = 0")
  case True
  then show ?thesis by simp
next
  case False
  define p where "p = ulp_exp x"
  define z where "z = x / 2 powi p"
  have x: "x = z * 2 powi p" by (simp add: z_def)
  have "r64 x = real_of_int (rne z) * 2 powi p"
    using False by (simp only: r64_def if_False z_def p_def)
  then have "r64 x - x = (real_of_int (rne z) - z) * 2 powi p"
    using x by (simp add: algebra_simps)
  then have "\<bar>r64 x - x\<bar> = \<bar>real_of_int (rne z) - z\<bar> * 2 powi p"
    by (simp add: abs_mult)
  moreover have "\<bar>real_of_int (rne z) - z\<bar> \<le> 1 / 2"
    using rne_lower [of z] rne_upper [of z] by linarith
  then have "\<bar>real_of_int (rne z) - z\<bar> * 2 powi p \<le> 1 / 2 * 2 powi p"
    by (rule mult_right_mono) simp
  ultimately show ?thesis by (simp add: p_def)
qed

lemma r64_of_int: "\<bar>k\<bar> \<le> 2 ^ 53 \<Longrightarrow> r64 (real_of_int k) = real_of_int k"
  using r64_exact [of k 0] by simp

lemma r64_of_nat: "n \<le> 2 ^ 53 \<Longrightarrow> r64 (real n) = real n"
  using r64_of_int [of "int n"] by simp

lemma r64_dyadic:
  "\<bar>k\<bar> \<le> 2 ^ 53 \<Longrightarrow> j \<le> 1074 \<Longrightarrow> r64 (real_of_int k / 2 ^ j) = real_of_int k / 2 ^ j"
  using r64_exact [of k "- int j"] by (simp add: power_int_minus field_simps)

lemma r64_scaled:
  "\<bar>k\<bar> \<le> 2 ^ 53 \<Longrightarrow> r64 (real_of_int k * 2 ^ j) = real_of_int k * 2 ^ j"
  using r64_exact [of k "int j"] by simp

lemma r64_between:
  assumes "lo \<le> x" "x \<le> hi" "r64 lo = lo" "r64 hi = hi"
  shows "lo \<le> r64 x \<and> r64 x \<le> hi"
  using r64_mono [OF assms(1)] r64_mono [OF assms(2)] assms(3,4) by simp

lemma r64_below_2p64:
  assumes "r64 r = r" "r < 2 ^ 64"
  shows "r \<le> 2 ^ 64 - 2048"
proof (cases "r < 2 ^ 63")
  case True
  then show ?thesis by simp
next
  case False
  then have lo: "2 ^ 63 \<le> r" by simp
  then have r0: "r \<noteq> 0" by auto
  have "ulp_exp r = 63 - 52"
    by (rule ulp_exp_eq) (use lo assms(2) in simp_all)
  then have p: "ulp_exp r = 11" by simp
  define m where "m = rne (r / 2 powi 11)"
  have "r64 r = real_of_int m * 2 powi 11"
    using r0 by (simp only: r64_def if_False p m_def)
  with assms(1) have r: "r = real_of_int m * 2048" by simp
  with assms(2) have "real_of_int m * 2048 < 2 ^ 64" by simp
  then have "real_of_int m < 2 ^ 53" by simp
  then have "m < 2 ^ 53" by (metis of_int_less_numeral_power_cancel_iff)
  then have "m \<le> 2 ^ 53 - 1" by simp
  then have "real_of_int m \<le> real_of_int (2 ^ 53 - 1)" by (simp only: of_int_le_iff)
  then show ?thesis unfolding r by simp
qed

lemma r64_2p64: "r64 (2 ^ 64) = 2 ^ 64"
  using r64_scaled [of 1 64] by simp

lemma r64_2p64m1: "r64 (2 ^ 64 - 1) = 2 ^ 64"
proof -
  have "ulp_exp (18446744073709551615::real) = 63 - 52"
    by (rule ulp_exp_eq) simp_all
  then have p: "ulp_exp (18446744073709551615::real) = 11" by simp
  have f: "\<lfloor>(18446744073709551615::real) / 2048\<rfloor> = 9007199254740991" by simp
  have "rne (18446744073709551615 / 2048) = 9007199254740992"
    by (simp add: rne_def Let_def f)
  then have "r64 18446744073709551615 = 18446744073709551616"
    by (simp add: r64_def p)
  then show ?thesis by simp
qed

text \<open>The evaluation of a rounding at a given real: the nearest integer is found from
  two strict bounds, the exponent from the powers of two around the real.\<close>

lemma rne_eq:
  assumes "real_of_int m - 1 / 2 < y" "y < real_of_int m + 1 / 2"
  shows "rne y = m"
proof -
  have "real_of_int (rne y) - real_of_int m < 1" "real_of_int m - real_of_int (rne y) < 1"
    using rne_lower [of y] rne_upper [of y] assms by linarith+
  then have "real_of_int (rne y - m) < 1" "real_of_int (m - rne y) < 1" by simp_all
  then have "rne y - m < 1" "m - rne y < 1" by linarith+
  then show ?thesis by simp
qed

lemma r64_eval:
  assumes "- 1022 \<le> e" "2 powi e \<le> \<bar>x\<bar>" "\<bar>x\<bar> < 2 powi (e + 1)"
    and "real_of_int m - 1 / 2 < x / 2 powi (e - 52)" "x / 2 powi (e - 52) < real_of_int m + 1 / 2"
  shows "r64 x = real_of_int m * 2 powi (e - 52)"
proof -
  have p: "ulp_exp x = e - 52" by (rule ulp_exp_eq [OF assms(1-3)])
  have "0 < (2::real) powi e" by simp
  with assms(2) have "0 < \<bar>x\<bar>" by linarith
  then have x0: "x \<noteq> 0" by simp
  have "rne (x / 2 powi (e - 52)) = m" by (rule rne_eq [OF assms(4,5)])
  then show ?thesis using x0 by (simp only: r64_def if_False p)
qed

lemma dbl_of_real_finite:
  assumes "\<bar>x\<bar> \<le> 2 ^ 1023"
  shows "dbl_of_real x = Finite (r64 x)"
proof -
  have e: "r64 (2 ^ 1023) = 2 ^ 1023" using r64_scaled [of 1 1023] by simp
  have b: "- (2 ^ 1023) \<le> x" "x \<le> 2 ^ 1023" using assms by linarith+
  have "r64 (- (2 ^ 1023)) \<le> r64 x" "r64 x \<le> r64 (2 ^ 1023)"
    by (rule r64_mono [OF b(1)]) (rule r64_mono [OF b(2)])
  then have "- (2 ^ 1023) \<le> r64 x" "r64 x \<le> 2 ^ 1023" by (simp_all only: r64_minus e)
  moreover have "(2::real) ^ 1023 < 2 ^ 1024" by simp
  ultimately have "\<not> 2 ^ 1024 \<le> r64 x" "\<not> r64 x \<le> - (2 ^ 1024)" by linarith+
  then show ?thesis by (simp only: dbl_of_real_def Let_def if_False)
qed

lemma dbl_of_real_exact:
  "r64 x = x \<Longrightarrow> \<bar>x\<bar> \<le> 2 ^ 1023 \<Longrightarrow> dbl_of_real x = Finite x"
  by (simp only: dbl_of_real_finite)

lemma dbl_of_real_minus: "dbl_of_real (- x) = dbl_neg (dbl_of_real x)"
proof -
  have "(0::real) < 2 ^ 1024" by simp
  then show ?thesis
    unfolding dbl_of_real_def Let_def r64_minus by (auto simp del: zero_less_power)
qed

lemma dbl_of_real_int:
  assumes "\<bar>k\<bar> \<le> 2 ^ 53"
  shows "dbl_of_real (real_of_int k) = Finite (real_of_int k)"
proof (rule dbl_of_real_exact [OF r64_of_int [OF assms]])
  have "real_of_int \<bar>k\<bar> \<le> real_of_int (2 ^ 53)" using assms by (simp only: of_int_le_iff)
  then have "\<bar>real_of_int k\<bar> \<le> 2 ^ 53" by simp
  moreover have "(2::real) ^ 53 \<le> 2 ^ 1023" by simp
  ultimately show "\<bar>real_of_int k\<bar> \<le> 2 ^ 1023" by (rule order_trans)
qed

lemma dbl_of_real_nat: "n \<le> 2 ^ 53 \<Longrightarrow> dbl_of_real (real n) = Finite (real n)"
  using dbl_of_real_int [of "int n"] by simp

lemma dbl_of_real_0 [simp]: "dbl_of_real 0 = Finite 0"
  using dbl_of_real_int [of 0] by simp

lemma dbl_of_real_1 [simp]: "dbl_of_real 1 = Finite 1"
  using dbl_of_real_int [of 1] by simp

lemma dbl_of_real_numeral [simp]:
  "numeral n \<le> (9007199254740992 :: int) \<Longrightarrow> dbl_of_real (numeral n) = Finite (numeral n)"
  using dbl_of_real_int [of "numeral n"] by simp

lemma dbl_of_real_dyadic:
  assumes "\<bar>k\<bar> \<le> 2 ^ 53" "j \<le> 1074"
  shows "dbl_of_real (real_of_int k / 2 ^ j) = Finite (real_of_int k / 2 ^ j)"
proof (rule dbl_of_real_exact [OF r64_dyadic [OF assms]])
  have "real_of_int \<bar>k\<bar> \<le> real_of_int (2 ^ 53)" using assms(1) by (simp only: of_int_le_iff)
  then have k: "\<bar>real_of_int k\<bar> \<le> 2 ^ 53" by simp
  have "\<bar>real_of_int k / 2 ^ j\<bar> = \<bar>real_of_int k\<bar> / 2 ^ j" by simp
  also have "\<dots> \<le> \<bar>real_of_int k\<bar> / 1"
    by (rule divide_left_mono) (simp_all add: one_le_power)
  also have "\<dots> = \<bar>real_of_int k\<bar>" by simp
  also have "\<dots> \<le> 2 ^ 1023" using k by simp
  finally show "\<bar>real_of_int k / 2 ^ j\<bar> \<le> 2 ^ 1023" .
qed

lemma dbl_of_real_fraction [simp]:
  "numeral n \<le> (9007199254740992 :: int) \<Longrightarrow> dbl_of_real (numeral n / 2) = Finite (numeral n / 2)"
  "numeral n \<le> (9007199254740992 :: int) \<Longrightarrow> dbl_of_real (numeral n / 4) = Finite (numeral n / 4)"
  "numeral n \<le> (9007199254740992 :: int) \<Longrightarrow> dbl_of_real (numeral n / 8) = Finite (numeral n / 8)"
  "numeral n \<le> (9007199254740992 :: int) \<Longrightarrow> dbl_of_real (numeral n / 16) = Finite (numeral n / 16)"
  using dbl_of_real_dyadic [of "numeral n" 1] dbl_of_real_dyadic [of "numeral n" 2]
    dbl_of_real_dyadic [of "numeral n" 3] dbl_of_real_dyadic [of "numeral n" 4]
  by simp_all

lemma dbl_of_real_half [simp]: "dbl_of_real (1 / 2) = Finite (1 / 2)"
  using dbl_of_real_dyadic [of 1 1] by simp

lemma is_binary64_of_real [simp]: "is_binary64 (dbl_of_real x)"
  by (simp add: dbl_of_real_def Let_def)

lemma is_binary64_div [simp]: "is_binary64 (dbl_div a b)"
  by (cases a; cases b) simp_all

lemma r64_numeral [simp]:
  "numeral n \<le> (9007199254740992 :: int) \<Longrightarrow> r64 (numeral n) = numeral n"
  using r64_of_int [of "numeral n"] by simp

lemma r64_1 [simp]: "r64 1 = 1"
  using r64_of_int [of 1] by simp

section \<open>Properties of the loop\<close>

lemma for_loop_returns_bound:
  assumes "for_loop body n i s = Some r"
  shows "n < 2 ^ 32"
proof (rule for_loop.raw_induct [where P = "\<lambda>b m j t y. m < 2 ^ 32", OF _ assms])
  fix f :: "(32 word \<Rightarrow> 's \<Rightarrow> 's) \<Rightarrow> nat \<Rightarrow> 32 word \<Rightarrow> 's \<Rightarrow> 's option"
    and b m and j :: "32 word" and t y
  assume IH: "\<And>b m j t y. f b m j t = Some y \<Longrightarrow> m < 2 ^ 32"
    and eq: "(if unat j < m then f b m (j + 1) (b j t) else Some t) = Some y"
  show "m < 2 ^ 32"
  proof (cases "unat j < m")
    case True
    with eq IH show ?thesis by simp
  next
    case False
    have "unat j < 2 ^ 32" using unsigned_less [of j, where ?'a = nat] by simp
    with False show ?thesis by simp
  qed
qed

lemma for_loop_fold:
  assumes "n < 2 ^ 32"
  shows "unat i \<le> n \<Longrightarrow>
    for_loop body n i s = Some (fold (\<lambda>k. body (of_nat k)) [unat i..<n] s)"
proof (induction "n - unat i" arbitrary: i s)
  case 0
  then have "unat i = n" by simp
  then show ?case by (subst for_loop.simps) simp
next
  case (Suc d)
  then have lt: "unat i < n" by simp
  have "unat i + 1 < 2 ^ 32" using lt assms by simp
  then have u: "unat (i + 1) = unat i + 1"
    by (simp add: unat_word_ariths)
  have "for_loop body n (i + 1) (body i s)
      = Some (fold (\<lambda>k. body (of_nat k)) [unat (i + 1)..<n] (body i s))"
    using Suc lt u by (intro Suc.hyps(1)) simp_all
  moreover have "[unat i..<n] = unat i # [unat (i + 1)..<n]"
    using lt u by (simp add: upt_conv_Cons)
  ultimately show ?case
    using lt by (subst for_loop.simps) simp
qed

lemma unat_of_nat32: "n < 2 ^ 32 \<Longrightarrow> unat (of_nat n :: 32 word) = n"
  by (simp add: unat_of_nat take_bit_nat_eq_self)

lemma clip_step_at:
  "length xs = n \<Longrightarrow> n < 2 ^ 32 \<Longrightarrow>
   clip_step (of_nat n) (xs @ v # ys, t) = (xs @ clipped v # ys, t + clipped v)"
  by (simp add: clip_step_def clipped_def Let_def unat_of_nat32 nth_append list_update_append)

lemma clip_fold:
  "n \<le> length vals \<Longrightarrow> n \<le> 2 ^ 32 \<Longrightarrow>
   fold (\<lambda>k. clip_step (of_nat k)) [0..<n] (vals, s)
     = (map clipped (take n vals) @ drop n vals, s + sum_list (map clipped (take n vals)))"
proof (induction n)
  case 0
  show ?case by simp
next
  case (Suc n)
  then have lt: "n < length vals" and b: "n < 2 ^ 32" by simp_all
  let ?pre = "map clipped (take n vals)"
  have len: "length ?pre = n" using lt by simp
  have same: "drop n vals = vals ! n # drop (Suc n) vals"
    using lt by (simp add: Cons_nth_drop_Suc)
  have tk: "map clipped (take (Suc n) vals) = ?pre @ [clipped (vals ! n)]"
    using lt by (simp add: take_Suc_conv_app_nth)
  have "fold (\<lambda>k. clip_step (of_nat k)) [0..<Suc n] (vals, s)
      = clip_step (of_nat n) (?pre @ vals ! n # drop (Suc n) vals, s + sum_list ?pre)"
    using Suc.IH lt b same by simp
  also have "\<dots> = (?pre @ clipped (vals ! n) # drop (Suc n) vals,
                     s + sum_list ?pre + clipped (vals ! n))"
    by (rule clip_step_at [OF len b])
  finally show ?case by (simp add: tk add.assoc)
qed

lemma clip_loop:
  assumes "length vals < 2 ^ 32"
  shows "for_loop clip_step (length vals) 0 (vals, 0)
       = Some (map clipped vals, sum_list (map clipped vals))"
  using for_loop_fold [OF assms, of 0 clip_step "(vals, 0)"] clip_fold [of "length vals" vals 0] assms
  by simp

lemma get_abs_deviation_returns:
  assumes "get_abs_deviation vals0 = Some r"
  shows "length vals0 < 2 ^ 32"
proof (cases "for_loop clip_step (length vals0) 0 (vals0, 0)")
  case None
  with assms show ?thesis by (simp add: get_abs_deviation_def)
next
  case (Some st)
  then show ?thesis by (rule for_loop_returns_bound)
qed

lemma get_abs_deviation_closed:
  assumes "length vals0 < 2 ^ 32"
  shows "get_abs_deviation vals0 =
     (let vals = map clipped vals0;
          a = dbl_div (dbl_of_ticks (sum_list vals)) (dbl_of_size (length vals0));
          l = band_locals vals a (length vals0);
          b = band_avgs_of l;
          d = band_devs vals a b (length vals0)
      in Some (vals, summary (length vals0) a l b d))"
  unfolding get_abs_deviation_def Let_def band_locals_def band_devs_def
  by (simp add: clip_loop [OF assms] for_loop_fold [OF assms])

lemma get_abs_deviation_vals:
  assumes "get_abs_deviation vals0 = Some (vals, ad)"
  shows "vals = map clipped vals0"
  using assms get_abs_deviation_closed [OF get_abs_deviation_returns [OF assms]]
  by (simp add: Let_def)

lemma clipped_cases:
  "clipped v = (if 0 \<le> sint v \<and> sint v \<le> 1500 then v else 0)"
proof -
  have "v \<le> 1500 \<longleftrightarrow> sint v \<le> 1500" if "0 \<le> sint v"
  proof -
    have "sint v < 2 ^ 64" using sint_lt [of v] by simp
    then have "uint v = sint v"
      using that by (simp add: uint_sint [of v] take_bit_int_eq_self)
    then show ?thesis by (simp add: word_le_def)
  qed
  then show ?thesis
    by (auto simp: clipped_def PFD_VAL_UP_LIMIT_def not_less)
qed

section \<open>The clipping of invalid samples\<close>

text \<open>
  Claim C3. \<open>get_abs_deviation\<close> returns exactly for the arrays of fewer than \<open>2 ^ 32\<close>
  samples. When it returns, the array has its length, every entry is its original value
  or zero, an entry differs from its original value if and only if that value, read as
  a signed 64-bit number, is outside the range from 0 to 1500, and every such entry is
  zero; an entry in the range is never modified.
\<close>

theorem clipping_in_place:
  "(get_abs_deviation vals0 = None \<longleftrightarrow> 2 ^ 32 \<le> length vals0) \<and>
   (\<forall>vals ad. get_abs_deviation vals0 = Some (vals, ad) \<longrightarrow>
      length vals = length vals0 \<and>
      (\<forall>i < length vals0.
         (vals ! i = vals0 ! i \<or> vals ! i = 0) \<and>
         (vals ! i \<noteq> vals0 ! i \<longleftrightarrow> \<not> (0 \<le> sint (vals0 ! i) \<and> sint (vals0 ! i) \<le> 1500)) \<and>
         (\<not> (0 \<le> sint (vals0 ! i) \<and> sint (vals0 ! i) \<le> 1500) \<longrightarrow> vals ! i = 0)))"
proof (intro conjI allI impI)
  show "get_abs_deviation vals0 = None \<longleftrightarrow> 2 ^ 32 \<le> length vals0"
  proof
    assume "get_abs_deviation vals0 = None"
    then show "2 ^ 32 \<le> length vals0"
      using get_abs_deviation_closed [of vals0] by (auto simp: Let_def not_le [symmetric])
  next
    assume "2 ^ 32 \<le> length vals0"
    then show "get_abs_deviation vals0 = None"
      using get_abs_deviation_returns [of vals0] by (cases "get_abs_deviation vals0") auto
  qed
next
  fix vals ad
  assume r: "get_abs_deviation vals0 = Some (vals, ad)"
  have v: "vals = map clipped vals0" by (rule get_abs_deviation_vals [OF r])
  then show "length vals = length vals0" by simp
  fix i assume i: "i < length vals0"
  have z: "sint (0 :: ticks) = 0" by simp
  show "vals ! i = vals0 ! i \<or> vals ! i = 0"
    using i by (simp add: v clipped_cases)
  show "vals ! i \<noteq> vals0 ! i \<longleftrightarrow> \<not> (0 \<le> sint (vals0 ! i) \<and> sint (vals0 ! i) \<le> 1500)"
    using i z by (auto simp: v clipped_cases)
  assume "\<not> (0 \<le> sint (vals0 ! i) \<and> sint (vals0 ! i) \<le> 1500)"
  then show "vals ! i = 0"
    using i by (auto simp: v clipped_cases)
qed

theorem clipping_in_place_witness:
  "\<exists>vals ad. get_abs_deviation [20, 2000, - 1, 0] = Some (vals, ad) \<and>
     vals ! 0 = 20 \<and> vals ! 1 = 0 \<and> vals ! 2 = 0 \<and> vals ! 3 = 0"
proof -
  let ?xs = "[20, 2000, - 1, 0] :: ticks list"
  obtain vals ad where r: "get_abs_deviation ?xs = Some (vals, ad)"
    using get_abs_deviation_closed [of ?xs] by (simp add: Let_def)
  have s: "sint (2000 :: ticks) = 2000" "sint (- 1 :: ticks) = - 1" "sint (20 :: ticks) = 20"
    by simp_all
  from clipping_in_place [of ?xs] r
  have *: "\<forall>i < length ?xs.
         (vals ! i = ?xs ! i \<or> vals ! i = 0) \<and>
         (vals ! i \<noteq> ?xs ! i \<longleftrightarrow> \<not> (0 \<le> sint (?xs ! i) \<and> sint (?xs ! i) \<le> 1500)) \<and>
         (\<not> (0 \<le> sint (?xs ! i) \<and> sint (?xs ! i) \<le> 1500) \<longrightarrow> vals ! i = 0)"
    by blast
  have "vals ! 0 = 20" using * [rule_format, of 0] s by simp
  moreover have "vals ! 1 = 0" using * [rule_format, of 1] s by simp
  moreover have "vals ! 2 = 0" using * [rule_format, of 2] s by simp
  moreover have "vals ! 3 = 0" using * [rule_format, of 3] s by simp
  ultimately show ?thesis using r by blast
qed

section \<open>The deviation bands\<close>

lemma band_locals_Suc:
  "band_locals vals a (Suc n) = band_step vals a (of_nat n) (band_locals vals a n)"
  by (simp add: band_locals_def)

lemma band_locals_0: "band_locals vals a 0 = locals_init"
  by (simp add: band_locals_def)

lemma unat_succ32: "unat (c :: 32 word) < 2 ^ 32 - 1 \<Longrightarrow> unat (c + 1) = unat c + 1"
  by (simp add: unat_word_ariths)

lemma count_band_counts:
  assumes "unat (l_num_dev_10p s) + unat (l_num_dev_25p s) + unat (l_num_dev_50p s)
         + unat (l_num_dev_75p s) + unat (l_num_dev_rst s) = n" and "n < 2 ^ 32 - 1"
  shows "unat (l_num_dev_10p (count_band a d v s)) + unat (l_num_dev_25p (count_band a d v s))
       + unat (l_num_dev_50p (count_band a d v s)) + unat (l_num_dev_75p (count_band a d v s))
       + unat (l_num_dev_rst (count_band a d v s)) = Suc n"
proof -
  have "unat (l_num_dev_10p s) < 2 ^ 32 - 1" "unat (l_num_dev_25p s) < 2 ^ 32 - 1"
    "unat (l_num_dev_50p s) < 2 ^ 32 - 1" "unat (l_num_dev_75p s) < 2 ^ 32 - 1"
    "unat (l_num_dev_rst s) < 2 ^ 32 - 1"
    using assms by linarith+
  then show ?thesis
    using assms(1) by (simp add: count_band_def unat_succ32)
qed

lemma track_extremes_counts [simp]:
  "l_num_dev_10p (track_extremes i v s) = l_num_dev_10p s"
  "l_num_dev_25p (track_extremes i v s) = l_num_dev_25p s"
  "l_num_dev_50p (track_extremes i v s) = l_num_dev_50p s"
  "l_num_dev_75p (track_extremes i v s) = l_num_dev_75p s"
  "l_num_dev_rst (track_extremes i v s) = l_num_dev_rst s"
  by (simp_all add: track_extremes_def)

lemma band_step_counts:
  assumes "unat (l_num_dev_10p s) + unat (l_num_dev_25p s) + unat (l_num_dev_50p s)
         + unat (l_num_dev_75p s) + unat (l_num_dev_rst s) = n" and "n < 2 ^ 32 - 1"
  shows "unat (l_num_dev_10p (band_step vals a i s)) + unat (l_num_dev_25p (band_step vals a i s))
       + unat (l_num_dev_50p (band_step vals a i s)) + unat (l_num_dev_75p (band_step vals a i s))
       + unat (l_num_dev_rst (band_step vals a i s)) = Suc n"
proof -
  let ?t = "track_extremes i (vals ! unat i) s"
  have "unat (l_num_dev_10p ?t) + unat (l_num_dev_25p ?t) + unat (l_num_dev_50p ?t)
         + unat (l_num_dev_75p ?t) + unat (l_num_dev_rst ?t) = n"
    using assms(1) by simp
  from count_band_counts [OF this assms(2)]
  show ?thesis by (simp add: band_step_def Let_def)
qed

lemma band_locals_counts:
  "n < 2 ^ 32 \<Longrightarrow>
   unat (l_num_dev_10p (band_locals vals a n)) + unat (l_num_dev_25p (band_locals vals a n))
   + unat (l_num_dev_50p (band_locals vals a n)) + unat (l_num_dev_75p (band_locals vals a n))
   + unat (l_num_dev_rst (band_locals vals a n)) = n"
proof (induction n)
  case 0
  show ?case by (simp add: band_locals_0 locals_init_def)
next
  case (Suc n)
  then have "n < 2 ^ 32 - 1" by simp
  with Suc show ?case
    unfolding band_locals_Suc by (intro band_step_counts) simp_all
qed

lemma get_abs_deviation_ad:
  assumes "get_abs_deviation vals0 = Some (vals, ad)"
  shows "\<exists>d. ad = summary (length vals0)
            (dbl_div (dbl_of_ticks (sum_list (map clipped vals0))) (dbl_of_size (length vals0)))
            (band_locals (map clipped vals0)
               (dbl_div (dbl_of_ticks (sum_list (map clipped vals0))) (dbl_of_size (length vals0)))
               (length vals0))
            (band_avgs_of (band_locals (map clipped vals0)
               (dbl_div (dbl_of_ticks (sum_list (map clipped vals0))) (dbl_of_size (length vals0)))
               (length vals0))) d"
  using assms get_abs_deviation_closed [OF get_abs_deviation_returns [OF assms]]
  by (auto simp: Let_def)

lemma get_abs_deviation_total:
  "length vals0 < 2 ^ 32 \<Longrightarrow> \<exists>vals ad. get_abs_deviation vals0 = Some (vals, ad)"
  using get_abs_deviation_closed [of vals0] by (simp add: Let_def)

lemma summary_counts [simp]:
  "num_dev_10p (summary n a l b d) = l_num_dev_10p l"
  "num_dev_25p (summary n a l b d) = l_num_dev_25p l"
  "num_dev_50p (summary n a l b d) = l_num_dev_50p l"
  "num_dev_75p (summary n a l b d) = l_num_dev_75p l"
  "num_dev_rst (summary n a l b d) = l_num_dev_rst l"
  by (simp_all add: summary_def)

lemma summary_avg [simp]: "avg (summary n a l b d) = a"
  by (simp add: summary_def)

lemma summary_extremes [simp]:
  "max_val (summary n a l b d) = l_max_val l"
  "max_val_idx (summary n a l b d) = l_max_val_idx l"
  "min_val (summary n a l b d) = l_min_val l"
  "min_val_idx (summary n a l b d) = l_min_val_idx l"
  by (simp_all add: summary_def)

text \<open>
  Claim C4. \<open>get_abs_deviation\<close> returns for every array of fewer than \<open>2 ^ 32\<close>
  samples, and whenever it returns the five band counters add up to the number of
  samples, both as numbers and in the 32-bit arithmetic of the counters: every sample
  is counted in exactly one band.
\<close>

theorem band_counts_partition:
  "(length vals0 < 2 ^ 32 \<longrightarrow> get_abs_deviation vals0 \<noteq> None) \<and>
   (\<forall>vals ad. get_abs_deviation vals0 = Some (vals, ad) \<longrightarrow>
      unat (num_dev_10p ad) + unat (num_dev_25p ad) + unat (num_dev_50p ad)
        + unat (num_dev_75p ad) + unat (num_dev_rst ad) = length vals0 \<and>
      unat (num_dev_10p ad + num_dev_25p ad + num_dev_50p ad + num_dev_75p ad + num_dev_rst ad)
        = length vals0)"
proof (intro conjI allI impI)
  assume "length vals0 < 2 ^ 32"
  then show "get_abs_deviation vals0 \<noteq> None"
    using get_abs_deviation_total [of vals0] by auto
next
  fix vals ad
  assume r: "get_abs_deviation vals0 = Some (vals, ad)"
  have b: "length vals0 < 2 ^ 32" by (rule get_abs_deviation_returns [OF r])
  obtain a l b' d where ad: "ad = summary (length vals0) a l b' d"
    and l: "l = band_locals (map clipped vals0) a (length vals0)"
    using get_abs_deviation_ad [OF r] by blast
  show nat_sum: "unat (num_dev_10p ad) + unat (num_dev_25p ad) + unat (num_dev_50p ad)
        + unat (num_dev_75p ad) + unat (num_dev_rst ad) = length vals0"
    using band_locals_counts [OF b, of "map clipped vals0" a] by (simp add: ad l)
  have "unat (num_dev_10p ad + num_dev_25p ad + num_dev_50p ad + num_dev_75p ad + num_dev_rst ad)
      = (unat (num_dev_10p ad) + unat (num_dev_25p ad) + unat (num_dev_50p ad)
        + unat (num_dev_75p ad) + unat (num_dev_rst ad)) mod 2 ^ 32"
    by (simp add: unat_word_ariths mod_simps)
  then show "unat (num_dev_10p ad + num_dev_25p ad + num_dev_50p ad + num_dev_75p ad + num_dev_rst ad)
        = length vals0"
    using nat_sum b by simp
qed

lemmas eval_simps = band_locals_def upt_rec band_step_def Let_def track_extremes_def
  locals_init_def dbl_sub_def dbl_gt_def dbl_ge_def absd_def dbl_of_ticks_def
  dbl_of_u32_def dbl_of_size_def dev_25p_def dev_50p_def dev_75p_def DBL_MAX_def
  clipped_def PFD_VAL_UP_LIMIT_def dbl_of_real_minus

text \<open>The double nearest to one tenth lies between 1/16 and 1/8, and so does the
  fraction of a value that the first cutoff takes.\<close>

lemma tenth_bounds: "1 / 16 \<le> r64 (1 / 10)" "r64 (1 / 10) \<le> 1 / 8"
  using r64_between [of "1 / 16" "1 / 10" "1 / 8"] r64_dyadic [of 1 4] r64_dyadic [of 1 3]
  by simp_all

lemma dbl_of_real_tenth: "dbl_of_real (1 / 10) = Finite (r64 (1 / 10))"
  by (rule dbl_of_real_finite) simp

lemma dev_10p_finite:
  assumes "0 \<le> a" "a \<le> 2 ^ 64"
  shows "dev_10p (Finite a) = Finite (r64 (r64 (1 / 10) * a))"
    and "r64 (a / 16) \<le> r64 (r64 (1 / 10) * a)"
    and "r64 (r64 (1 / 10) * a) \<le> r64 (a / 8)"
proof -
  let ?t = "r64 (1 / 10)"
  have lo: "a / 16 \<le> ?t * a"
    using mult_right_mono [OF tenth_bounds(1) assms(1)] by simp
  have hi: "?t * a \<le> a / 8"
    using mult_right_mono [OF tenth_bounds(2) assms(1)] by simp
  have "0 \<le> ?t * a" using lo assms(1) by simp
  moreover have "?t * a \<le> 2 ^ 64" using hi assms by simp
  moreover have "(2::real) ^ 64 \<le> 2 ^ 1023" by simp
  ultimately have "\<bar>?t * a\<bar> \<le> 2 ^ 1023" by linarith
  then show "dev_10p (Finite a) = Finite (r64 (?t * a))"
    by (simp add: dev_10p_def dbl_of_real_tenth dbl_of_real_finite)
  show "r64 (a / 16) \<le> r64 (?t * a)" by (rule r64_mono [OF lo])
  show "r64 (?t * a) \<le> r64 (a / 8)" by (rule r64_mono [OF hi])
qed

theorem band_counts_partition_witness:
  "\<exists>vals ad. get_abs_deviation [20, 21, 60, 0] = Some (vals, ad) \<and>
     unat (num_dev_10p ad) + unat (num_dev_25p ad) + unat (num_dev_50p ad)
        + unat (num_dev_75p ad) + unat (num_dev_rst ad) = 4 \<and>
     num_dev_10p ad = 0 \<and> num_dev_25p ad = 2 \<and> num_dev_rst ad = 2"
proof -
  let ?xs = "[20, 21, 60, 0] :: ticks list"
  obtain vals ad where r: "get_abs_deviation ?xs = Some (vals, ad)"
    using get_abs_deviation_total [of ?xs] by auto
  have "unat (num_dev_10p ad) + unat (num_dev_25p ad) + unat (num_dev_50p ad)
        + unat (num_dev_75p ad) + unat (num_dev_rst ad) = 4"
    using band_counts_partition [of ?xs] r by simp
  moreover have "num_dev_10p ad = 0 \<and> num_dev_25p ad = 2 \<and> num_dev_rst ad = 2"
  proof -
    define c where "c = r64 (r64 (1 / 10) * (101 / 4))"
    have e: "r64 (101 / 32) = 101 / 32" using r64_dyadic [of 101 5] by simp
    have d: "dev_10p (Finite (101 / 4)) = Finite c" and u: "c \<le> 101 / 32"
      using dev_10p_finite(1,3) [of "101 / 4"] by (simp_all add: c_def e)
    show ?thesis
      using get_abs_deviation_ad [OF r] d u by (auto simp: eval_simps count_band_def)
  qed
  ultimately show ?thesis using r by blast
qed

section \<open>The range of the global average\<close>

lemma clipped_le: "unat (clipped v) \<le> 1500"
proof -
  have "\<not> v > 1500 \<Longrightarrow> unat v \<le> 1500"
    by (simp add: not_less word_le_nat_alt)
  then show ?thesis by (auto simp: clipped_def PFD_VAL_UP_LIMIT_def)
qed

lemma sum_list_small:
  fixes xs :: "ticks list"
  assumes "\<forall>v \<in> set xs. unat v \<le> 1500"
  shows "length xs < 2 ^ 32 \<Longrightarrow> unat (sum_list xs) \<le> 1500 * length xs"
  using assms
proof (induction xs)
  case Nil
  show ?case by simp
next
  case (Cons x xs)
  then have IH: "unat (sum_list xs) \<le> 1500 * length xs" and x: "unat x \<le> 1500"
    and len: "length xs < 2 ^ 32" by simp_all
  have "unat (x + sum_list xs) \<le> unat x + unat (sum_list xs)"
    by (simp add: unat_word_ariths) 
  with IH x show ?case by simp
qed

lemma avg_in_range:
  assumes "n = length vals0" "0 < n" "n < 2 ^ 32"
  shows "\<exists>a. dbl_div (dbl_of_ticks (sum_list (map clipped vals0))) (dbl_of_size n) = Finite a
            \<and> 0 \<le> a \<and> a \<le> 1500"
proof -
  let ?s = "unat (sum_list (map clipped vals0))"
  have s: "?s \<le> 1500 * n"
    using sum_list_small [of "map clipped vals0"] assms by (simp add: clipped_le)
  then have "real ?s \<le> 1500 * real n"
    by (metis of_nat_le_iff of_nat_mult of_nat_numeral)
  then have hi: "real ?s / real n \<le> 1500"
    using assms(2) by (simp add: pos_divide_le_eq)
  have lo: "0 \<le> real ?s / real n"
    by (rule divide_nonneg_nonneg) (rule of_nat_0_le_iff)+
  have "?s \<le> 2 ^ 53" "n \<le> 2 ^ 53" using s assms(3) by simp_all
  then have c: "dbl_of_ticks (sum_list (map clipped vals0)) = Finite (real ?s)"
    "dbl_of_size n = Finite (real n)"
    by (simp_all only: dbl_of_ticks_def dbl_of_size_def dbl_of_real_nat)
  have e: "r64 1500 = 1500" using r64_of_int [of 1500] by simp
  from r64_between [OF lo hi _ e]
  have b: "0 \<le> r64 (real ?s / real n)" "r64 (real ?s / real n) \<le> 1500" by simp_all
  have "\<bar>real ?s / real n\<bar> \<le> 1500" using lo hi by linarith
  moreover have "(1500::real) \<le> 2 ^ 1023" by simp
  ultimately have "\<bar>real ?s / real n\<bar> \<le> 2 ^ 1023" by (rule order_trans)
  then have "dbl_of_real (real ?s / real n) = Finite (r64 (real ?s / real n))"
    by (rule dbl_of_real_finite)
  then show ?thesis
    using assms(2) b unfolding c by (simp del: of_nat_unat)
qed

lemma cutoffs_finite:
  assumes "0 \<le> a" "a \<le> 1500"
  shows "dev_10p (Finite a) = Finite (r64 (r64 (1 / 10) * a))"
    and "dev_25p (Finite a) = Finite (r64 (a / 4))"
    and "dev_50p (Finite a) = Finite (r64 (a / 2))"
    and "dev_75p (Finite a) = Finite (r64 (3 * a / 4))"
    and "0 \<le> r64 (r64 (1 / 10) * a)" and "0 \<le> r64 (a / 4)" and "0 \<le> r64 (a / 2)"
    and "0 \<le> r64 (3 * a / 4)"
proof -
  have big: "(1500::real) \<le> 2 ^ 1023" "(1500::real) \<le> 2 ^ 64" by simp_all
  have a64: "a \<le> 2 ^ 64" using assms(2) big(2) by (rule order_trans)
  show "dev_10p (Finite a) = Finite (r64 (r64 (1 / 10) * a))"
    by (rule dev_10p_finite(1) [OF assms(1) a64])
  have "\<bar>a / 4\<bar> \<le> 1500" "\<bar>a / 2\<bar> \<le> 1500" "\<bar>3 * a / 4\<bar> \<le> 1500"
    using assms by simp_all
  then have "\<bar>a / 4\<bar> \<le> 2 ^ 1023" "\<bar>a / 2\<bar> \<le> 2 ^ 1023" "\<bar>3 * a / 4\<bar> \<le> 2 ^ 1023"
    using big(1) by linarith+
  then show "dev_25p (Finite a) = Finite (r64 (a / 4))"
    and "dev_50p (Finite a) = Finite (r64 (a / 2))"
    and "dev_75p (Finite a) = Finite (r64 (3 * a / 4))"
    by (simp_all add: dev_25p_def dev_50p_def dev_75p_def dbl_of_real_finite)
  have "0 \<le> r64 (1 / 10) * a"
    using tenth_bounds(1) assms(1) by simp
  then show "0 \<le> r64 (r64 (1 / 10) * a)" by (rule r64_nonneg)
  show "0 \<le> r64 (a / 4)" "0 \<le> r64 (a / 2)" "0 \<le> r64 (3 * a / 4)"
    using assms(1) by (simp_all add: r64_nonneg)
qed

text \<open>
  Claim C9. For a non-empty array the global average that \<open>get_abs_deviation\<close> returns
  is finite and lies between 0 and 1500, and the band cutoffs, the fractions 10\%, 25\%,
  50\% and 75\% of the average rounded to a double, are finite and not negative.
\<close>

theorem average_in_range:
  "(vals0 \<noteq> [] \<and> length vals0 < 2 ^ 32 \<longrightarrow> get_abs_deviation vals0 \<noteq> None) \<and>
   (\<forall>vals ad. get_abs_deviation vals0 = Some (vals, ad) \<and> vals0 \<noteq> [] \<longrightarrow>
      (\<exists>a. avg ad = Finite a \<and> 0 \<le> a \<and> a \<le> 1500 \<and>
           dev_10p (avg ad) = Finite (r64 (r64 (1 / 10) * a)) \<and> 0 \<le> r64 (r64 (1 / 10) * a) \<and>
           dev_25p (avg ad) = Finite (r64 (a / 4)) \<and> 0 \<le> r64 (a / 4) \<and>
           dev_50p (avg ad) = Finite (r64 (a / 2)) \<and> 0 \<le> r64 (a / 2) \<and>
           dev_75p (avg ad) = Finite (r64 (3 * a / 4)) \<and> 0 \<le> r64 (3 * a / 4)))"
proof (intro conjI allI impI)
  assume "vals0 \<noteq> [] \<and> length vals0 < 2 ^ 32"
  then show "get_abs_deviation vals0 \<noteq> None"
    using get_abs_deviation_total [of vals0] by auto
next
  fix vals ad
  assume "get_abs_deviation vals0 = Some (vals, ad) \<and> vals0 \<noteq> []"
  then have r: "get_abs_deviation vals0 = Some (vals, ad)" and ne: "0 < length vals0"
    by simp_all
  have b: "length vals0 < 2 ^ 32" by (rule get_abs_deviation_returns [OF r])
  obtain a where a: "avg ad = Finite a" "0 \<le> a" "a \<le> 1500"
    using avg_in_range [OF refl ne b] get_abs_deviation_ad [OF r] by auto
  from a cutoffs_finite [OF a(2,3)]
  show "\<exists>a. avg ad = Finite a \<and> 0 \<le> a \<and> a \<le> 1500 \<and>
           dev_10p (avg ad) = Finite (r64 (r64 (1 / 10) * a)) \<and> 0 \<le> r64 (r64 (1 / 10) * a) \<and>
           dev_25p (avg ad) = Finite (r64 (a / 4)) \<and> 0 \<le> r64 (a / 4) \<and>
           dev_50p (avg ad) = Finite (r64 (a / 2)) \<and> 0 \<le> r64 (a / 2) \<and>
           dev_75p (avg ad) = Finite (r64 (3 * a / 4)) \<and> 0 \<le> r64 (3 * a / 4)"
    by (intro exI [of _ a] conjI) simp_all
qed

theorem average_in_range_witness:
  "\<exists>vals ad a. get_abs_deviation [20, 2000, - 1, 0] = Some (vals, ad) \<and>
     avg ad = Finite a \<and> 0 \<le> a \<and> a \<le> 1500 \<and> a = 5 \<and> dev_25p (avg ad) = Finite (5 / 4)"
proof -
  let ?xs = "[20, 2000, - 1, 0] :: ticks list"
  obtain vals ad where r: "get_abs_deviation ?xs = Some (vals, ad)"
    using get_abs_deviation_total [of ?xs] by auto
  then obtain a where a: "avg ad = Finite a" "0 \<le> a" "a \<le> 1500"
    "dev_25p (avg ad) = Finite (r64 (a / 4))"
    using average_in_range [of ?xs] by auto
  have "avg ad = Finite 5"
    using get_abs_deviation_ad [OF r]
    by (auto simp: clipped_def PFD_VAL_UP_LIMIT_def dbl_of_ticks_def dbl_of_size_def)
  with a have "a = 5" by simp
  moreover have "r64 (5 / 4) = 5 / 4" using r64_dyadic [of 5 2] by simp
  ultimately show ?thesis using a r by auto
qed

section \<open>The extremes and their indices\<close>

lemma count_band_extremes [simp]:
  "l_max_val (count_band a d v s) = l_max_val s"
  "l_max_val_idx (count_band a d v s) = l_max_val_idx s"
  "l_min_val (count_band a d v s) = l_min_val s"
  "l_min_val_idx (count_band a d v s) = l_min_val_idx s"
  by (simp_all add: count_band_def)

lemma count_band_sums [simp]:
  "l_sum_adev (count_band a d v s) = l_sum_adev s"
  "l_sum_stdev (count_band a d v s) = l_sum_stdev s"
  by (simp_all add: count_band_def)

lemma band_step_extremes:
  "l_max_val (band_step vals a i s) = l_max_val (track_extremes i (vals ! unat i) s)"
  "l_max_val_idx (band_step vals a i s) = l_max_val_idx (track_extremes i (vals ! unat i) s)"
  "l_min_val (band_step vals a i s) = l_min_val (track_extremes i (vals ! unat i) s)"
  "l_min_val_idx (band_step vals a i s) = l_min_val_idx (track_extremes i (vals ! unat i) s)"
  by (simp_all add: band_step_def Let_def)

lemma unat_ucast_of_nat32:
  "n < 2 ^ 32 \<Longrightarrow> unat (ucast (of_nat n :: 32 word) :: 64 word) = n"
proof -
  have "uint (ucast (of_nat n :: 32 word) :: 64 word) = uint (of_nat n :: 32 word)"
    by (rule uint_up_ucast) (simp add: is_up)
  then have "unat (ucast (of_nat n :: 32 word) :: 64 word) = unat (of_nat n :: 32 word)"
    by (simp only: unat_eq_nat_uint)
  then show ?thesis if "n < 2 ^ 32" using that by (simp only: unat_of_nat32)
qed

lemma dbl_of_ticks_finite:
  "dbl_of_ticks v = Finite (r64 (real (unat v)))"
  "0 \<le> r64 (real (unat v))" "r64 (real (unat v)) \<le> 2 ^ 64"
proof -
  have "unat v < 2 ^ 64" using unsigned_less [of v, where ?'a = nat] by simp
  then have "real (unat v) < real (2 ^ 64)" by (simp only: of_nat_less_iff)
  then have hi: "real (unat v) \<le> 2 ^ 64" by simp
  have lo: "0 \<le> real (unat v)" by (rule of_nat_0_le_iff)
  from r64_between [OF lo hi _ r64_2p64]
  show "0 \<le> r64 (real (unat v))" "r64 (real (unat v)) \<le> 2 ^ 64" by simp_all
  have "(2::real) ^ 64 \<le> 2 ^ 1023" by simp
  with lo hi have "\<bar>real (unat v)\<bar> \<le> 2 ^ 1023" by linarith
  then show "dbl_of_ticks v = Finite (r64 (real (unat v)))"
    unfolding dbl_of_ticks_def by (rule dbl_of_real_finite)
qed

lemma dbl_of_ticks_ge_one:
  assumes "v \<noteq> 0"
  shows "1 \<le> r64 (real (unat v))"
proof -
  have "0 < unat v" using assms by (simp add: unat_gt_0)
  then have "1 \<le> unat v" by simp
  then have "real 1 \<le> real (unat v)" by (rule of_nat_mono)
  then have "1 \<le> real (unat v)" by (simp del: of_nat_unat)
  then have "r64 1 \<le> r64 (real (unat v))" by (rule r64_mono)
  moreover have "r64 1 = 1" using r64_of_int [of 1] by simp
  ultimately show ?thesis by (simp only:)
qed

lemma dbl_of_ticks_0: "dbl_of_ticks 0 = Finite 0"
  by (simp add: dbl_of_ticks_def)

lemma dbl_of_ticks_pos: "dbl_gt (dbl_of_ticks v) (Finite 0) \<longleftrightarrow> v \<noteq> 0"
proof (cases "v = 0")
  case True
  then show ?thesis by (simp add: dbl_of_ticks_0 dbl_gt_def)
next
  case False
  from dbl_of_ticks_ge_one [OF this] have "0 < r64 (real (unat v))" by simp
  with False show ?thesis
    by (simp add: dbl_gt_def dbl_of_ticks_finite(1) del: of_nat_unat)
qed

text \<open>The maximum after \<open>n\<close> rounds: untouched while all samples are zero, else the
  value of the sample its index names.\<close>

lemma band_locals_max:
  "n \<le> length vals \<Longrightarrow> n < 2 ^ 32 \<Longrightarrow>
   (l_max_val (band_locals vals a n) = Finite 0 \<and> l_max_val_idx (band_locals vals a n) = 0
      \<and> (\<forall>k < n. vals ! k = 0))
   \<or> (unat (l_max_val_idx (band_locals vals a n)) < n
      \<and> l_max_val (band_locals vals a n)
          = dbl_of_ticks (vals ! unat (l_max_val_idx (band_locals vals a n))))"
proof (induction n)
  case 0
  show ?case by (simp add: band_locals_0 locals_init_def)
next
  case (Suc n)
  then have b: "n < 2 ^ 32" by simp
  let ?s = "band_locals vals a n"
  from Suc have IH: "(l_max_val ?s = Finite 0 \<and> l_max_val_idx ?s = 0 \<and> (\<forall>k < n. vals ! k = 0))
      \<or> (unat (l_max_val_idx ?s) < n \<and> l_max_val ?s = dbl_of_ticks (vals ! unat (l_max_val_idx ?s)))"
    by simp
  show ?case
  proof (cases "dbl_gt (dbl_of_ticks (vals ! n)) (l_max_val ?s)")
    case True
    then show ?thesis
      by (simp add: band_locals_Suc band_step_extremes track_extremes_def unat_of_nat32 [OF b]
          unat_ucast_of_nat32 [OF b])
  next
    case False
    from IH show ?thesis
    proof
      assume z: "l_max_val ?s = Finite 0 \<and> l_max_val_idx ?s = 0 \<and> (\<forall>k < n. vals ! k = 0)"
      with False have "vals ! n = 0" by (simp add: dbl_of_ticks_pos)
      with z have "\<forall>k < Suc n. vals ! k = 0" by (simp add: less_Suc_eq)
      with z False show ?thesis
        by (simp add: band_locals_Suc band_step_extremes track_extremes_def unat_of_nat32 [OF b])
    next
      assume "unat (l_max_val_idx ?s) < n \<and> l_max_val ?s = dbl_of_ticks (vals ! unat (l_max_val_idx ?s))"
      with False show ?thesis
        by (simp add: band_locals_Suc band_step_extremes track_extremes_def unat_of_nat32 [OF b])
    qed
  qed
qed

lemma band_locals_min:
  "n \<le> length vals \<Longrightarrow> n < 2 ^ 32 \<Longrightarrow>
   (l_min_val (band_locals vals a n) = DBL_MAX \<and> l_min_val_idx (band_locals vals a n) = 0)
   \<or> (unat (l_min_val_idx (band_locals vals a n)) < n
      \<and> l_min_val (band_locals vals a n)
          = dbl_of_ticks (vals ! unat (l_min_val_idx (band_locals vals a n))))"
proof (induction n)
  case 0
  show ?case by (simp add: band_locals_0 locals_init_def)
next
  case (Suc n)
  then have b: "n < 2 ^ 32" by simp
  let ?s = "band_locals vals a n"
  from Suc have IH: "(l_min_val ?s = DBL_MAX \<and> l_min_val_idx ?s = 0)
      \<or> (unat (l_min_val_idx ?s) < n \<and> l_min_val ?s = dbl_of_ticks (vals ! unat (l_min_val_idx ?s)))"
    by simp
  then show ?case
    by (auto simp: band_locals_Suc band_step_extremes track_extremes_def unat_of_nat32 [OF b]
          unat_ucast_of_nat32 [OF b])
qed

lemma dbl_of_ticks_lt_max: "dbl_lt (dbl_of_ticks c) DBL_MAX"
proof -
  have "(2::real) ^ 64 < (2 ^ 53 - 1) * 2 ^ 971" by simp
  with dbl_of_ticks_finite(3) [of c] have "r64 (real (unat c)) < (2 ^ 53 - 1) * 2 ^ 971"
    by (rule le_less_trans)
  then show ?thesis by (simp only: dbl_of_ticks_finite(1) DBL_MAX_def dbl_lt.simps)
qed

lemma dbl_of_ticks_neq_max: "dbl_of_ticks c \<noteq> DBL_MAX"
  using dbl_of_ticks_lt_max [of c] by (auto simp: DBL_MAX_def)

lemma dbl_of_ticks_irrefl: "\<not> dbl_lt (dbl_of_ticks c) (dbl_of_ticks c)"
  by (simp add: dbl_of_ticks_finite(1))

lemma band_locals_all_equal:
  assumes eq: "\<forall>k < length vals. vals ! k = c"
  shows "0 < n \<Longrightarrow> n \<le> length vals \<Longrightarrow> n < 2 ^ 32 \<Longrightarrow>
     l_max_val_idx (band_locals vals a n) = 0 \<and>
     l_max_val (band_locals vals a n) = dbl_of_ticks c \<and>
     l_min_val_idx (band_locals vals a n) = (if c = 0 \<or> n = 1 then 0 else 1) \<and>
     l_min_val (band_locals vals a n)
       = (if c = 0 then Finite 0 else if n = 1 then DBL_MAX else dbl_of_ticks c)"
proof (induction n)
  case 0
  then show ?case by simp
next
  case (Suc n)
  then have b: "n < 2 ^ 32" and v: "vals ! n = c" using eq by simp_all
  show ?case
  proof (cases "n = 0")
    case True
    have lt: "dbl_lt (Finite 0) DBL_MAX" by (simp add: DBL_MAX_def)
    show ?thesis
      using v True lt dbl_of_ticks_pos [of c]
      by (simp add: band_locals_Suc band_locals_0 band_step_extremes track_extremes_def
          locals_init_def dbl_of_ticks_0)
  next
    case False
    let ?s = "band_locals vals a n"
    from False Suc have IH: "l_max_val_idx ?s = 0" "l_max_val ?s = dbl_of_ticks c"
      "l_min_val_idx ?s = (if c = 0 \<or> n = 1 then 0 else 1)"
      "l_min_val ?s = (if c = 0 then Finite 0 else if n = 1 then DBL_MAX else dbl_of_ticks c)"
      by simp_all
    have one: "ucast (1 :: 32 word) = (1 :: 64 word)" by simp
    show ?thesis
      using False IH dbl_of_ticks_irrefl [of c] dbl_of_ticks_lt_max [of c] one
      by (simp add: band_locals_Suc band_step_extremes track_extremes_def
          unat_of_nat32 [OF b] v dbl_gt_def dbl_of_ticks_0)
  qed
qed

lemma track_extremes_exclusive:
  "(l_max_val (track_extremes i v s) = l_max_val s \<and>
    l_max_val_idx (track_extremes i v s) = l_max_val_idx s) \<or>
   (l_min_val (track_extremes i v s) = l_min_val s \<and>
    l_min_val_idx (track_extremes i v s) = l_min_val_idx s)"
  by (simp add: track_extremes_def)

text \<open>
  Claim C6, as the code has it. For a non-empty array \<open>max_val_idx\<close> names an entry of
  the clipped array equal to \<open>max_val\<close>. \<open>min_val_idx\<close> names an entry equal to
  \<open>min_val\<close> once some sample has replaced the minimum; until then \<open>min_val\<close> is still
  \<open>DBL_MAX\<close> and \<open>min_val_idx\<close> is 0. For an array whose values are all equal,
  \<open>max_val_idx\<close> is 0 and \<open>min_val_idx\<close> is 1, or 0 when the clipped value is zero or
  the array has one entry. One sample never replaces both extremes.
\<close>

theorem extremes_indices:
  "(vals0 \<noteq> [] \<and> length vals0 < 2 ^ 32 \<longrightarrow> get_abs_deviation vals0 \<noteq> None) \<and>
   (\<forall>vals ad. get_abs_deviation vals0 = Some (vals, ad) \<and> vals0 \<noteq> [] \<longrightarrow>
      unat (max_val_idx ad) < length vals \<and>
      dbl_of_ticks (vals ! unat (max_val_idx ad)) = max_val ad \<and>
      (min_val ad \<noteq> DBL_MAX \<longrightarrow>
         unat (min_val_idx ad) < length vals \<and>
         dbl_of_ticks (vals ! unat (min_val_idx ad)) = min_val ad) \<and>
      (min_val ad = DBL_MAX \<longrightarrow> min_val_idx ad = 0) \<and>
      (\<forall>c. (\<forall>v \<in> set vals0. v = c) \<longrightarrow>
         max_val_idx ad = 0 \<and>
         min_val_idx ad = (if clipped c = 0 \<or> length vals0 = 1 then 0 else 1))) \<and>
   (\<forall>i v s.
      (l_max_val (track_extremes i v s) = l_max_val s \<and>
       l_max_val_idx (track_extremes i v s) = l_max_val_idx s) \<or>
      (l_min_val (track_extremes i v s) = l_min_val s \<and>
       l_min_val_idx (track_extremes i v s) = l_min_val_idx s))"
proof (intro conjI allI impI)
  assume "vals0 \<noteq> [] \<and> length vals0 < 2 ^ 32"
  then show "get_abs_deviation vals0 \<noteq> None"
    using get_abs_deviation_total [of vals0] by auto
next
  fix i v s
  show "(l_max_val (track_extremes i v s) = l_max_val s \<and>
       l_max_val_idx (track_extremes i v s) = l_max_val_idx s) \<or>
      (l_min_val (track_extremes i v s) = l_min_val s \<and>
       l_min_val_idx (track_extremes i v s) = l_min_val_idx s)"
    by (rule track_extremes_exclusive)
next
  fix vals ad
  assume "get_abs_deviation vals0 = Some (vals, ad) \<and> vals0 \<noteq> []"
  then have r: "get_abs_deviation vals0 = Some (vals, ad)" and ne: "0 < length vals0"
    by simp_all
  have b: "length vals0 < 2 ^ 32" by (rule get_abs_deviation_returns [OF r])
  have v: "vals = map clipped vals0" by (rule get_abs_deviation_vals [OF r])
  then have len: "length vals = length vals0" by simp
  obtain a l b' d where ad: "ad = summary (length vals0) a l b' d"
    and l: "l = band_locals vals a (length vals)"
    using get_abs_deviation_ad [OF r] v by auto
  have mx: "(l_max_val l = Finite 0 \<and> l_max_val_idx l = 0 \<and> (\<forall>k < length vals. vals ! k = 0))
      \<or> (unat (l_max_val_idx l) < length vals
          \<and> l_max_val l = dbl_of_ticks (vals ! unat (l_max_val_idx l)))"
    unfolding l using band_locals_max [of "length vals" vals a] b len by simp
  have mn: "(l_min_val l = DBL_MAX \<and> l_min_val_idx l = 0)
      \<or> (unat (l_min_val_idx l) < length vals
          \<and> l_min_val l = dbl_of_ticks (vals ! unat (l_min_val_idx l)))"
    unfolding l using band_locals_min [of "length vals" vals a] b len by simp
  from mx ne len show "unat (max_val_idx ad) < length vals"
    by (auto simp: ad)
  from mx ne len show "dbl_of_ticks (vals ! unat (max_val_idx ad)) = max_val ad"
    by (auto simp: ad dbl_of_ticks_0)
  from mn show "min_val ad = DBL_MAX \<Longrightarrow> min_val_idx ad = 0"
    using dbl_of_ticks_neq_max [of "vals ! unat (l_min_val_idx l)"] by (auto simp: ad)
  {
    assume "min_val ad \<noteq> DBL_MAX"
    with mn show "unat (min_val_idx ad) < length vals"
      and "dbl_of_ticks (vals ! unat (min_val_idx ad)) = min_val ad"
      by (auto simp: ad)
  }
  fix c
  assume "\<forall>v \<in> set vals0. v = c"
  then have "\<forall>k < length vals. vals ! k = clipped c"
    by (auto simp: v)
  from band_locals_all_equal [OF this, of "length vals" a] ne b len
  show "max_val_idx ad = 0"
    and "min_val_idx ad = (if clipped c = 0 \<or> length vals0 = 1 then 0 else 1)"
    by (simp_all add: ad l)
qed

text \<open>
  The claim as the specification states it fails for the array of the single sample 5:
  the sample replaces the maximum, the minimum is never looked at and stays \<open>DBL_MAX\<close>,
  while \<open>min_val_idx\<close> names the entry 5.
\<close>

theorem extremes_indices_counterexample:
  "map_option fst (get_abs_deviation [5]) = Some [5] \<and>
   map_option (min_val \<circ> snd) (get_abs_deviation [5]) = Some DBL_MAX \<and>
   map_option (min_val_idx \<circ> snd) (get_abs_deviation [5]) = Some 0 \<and>
   dbl_of_ticks ([5] ! unat (0 :: 64 word)) \<noteq> DBL_MAX"
proof -
  have "get_abs_deviation [5] \<noteq> None"
    using get_abs_deviation_total [of "[5]"] by auto
  then obtain vals ad where r: "get_abs_deviation [5] = Some (vals, ad)" by auto
  have "vals = [5]"
    using get_abs_deviation_vals [OF r] by (simp add: clipped_def PFD_VAL_UP_LIMIT_def)
  moreover have "min_val ad = DBL_MAX \<and> min_val_idx ad = 0"
    using get_abs_deviation_ad [OF r] by (auto simp: eval_simps)
  moreover have "dbl_of_ticks ([5] ! unat (0 :: 64 word)) \<noteq> DBL_MAX"
    by (simp add: dbl_of_ticks_def DBL_MAX_def)
  ultimately show ?thesis using r by simp
qed

theorem extremes_indices_witness:
  "\<exists>vals ad. get_abs_deviation [7, 7, 7] = Some (vals, ad) \<and>
     unat (max_val_idx ad) < length vals \<and>
     dbl_of_ticks (vals ! unat (max_val_idx ad)) = max_val ad \<and>
     min_val ad = Finite 7 \<and> min_val ad \<noteq> DBL_MAX \<and>
     dbl_of_ticks (vals ! unat (min_val_idx ad)) = min_val ad \<and>
     max_val_idx ad = 0 \<and> min_val_idx ad = 1"
proof -
  let ?xs = "[7, 7, 7] :: ticks list"
  obtain vals ad where r: "get_abs_deviation ?xs = Some (vals, ad)"
    using get_abs_deviation_total [of ?xs] by auto
  have m: "min_val ad = Finite 7"
    using get_abs_deviation_ad [OF r] by (auto simp: eval_simps)
  then have ne: "min_val ad \<noteq> DBL_MAX" by (simp add: DBL_MAX_def)
  have c: "clipped 7 \<noteq> 0" by (simp add: clipped_def PFD_VAL_UP_LIMIT_def)
  have eq: "\<forall>v \<in> set ?xs. v = 7" by simp
  from extremes_indices [of ?xs] r
  have *: "unat (max_val_idx ad) < length vals \<and>
      dbl_of_ticks (vals ! unat (max_val_idx ad)) = max_val ad \<and>
      (min_val ad \<noteq> DBL_MAX \<longrightarrow>
         unat (min_val_idx ad) < length vals \<and>
         dbl_of_ticks (vals ! unat (min_val_idx ad)) = min_val ad) \<and>
      (min_val ad = DBL_MAX \<longrightarrow> min_val_idx ad = 0) \<and>
      (\<forall>c. (\<forall>v \<in> set ?xs. v = c) \<longrightarrow>
         max_val_idx ad = 0 \<and>
         min_val_idx ad = (if clipped c = 0 \<or> length ?xs = 1 then 0 else 1))"
    by blast
  then have "max_val_idx ad = 0 \<and> min_val_idx ad = (if clipped 7 = 0 \<or> length ?xs = 1 then 0 else 1)"
    using eq by blast
  then have "max_val_idx ad = 0 \<and> min_val_idx ad = 1" using c by simp
  with * m ne r show ?thesis by blast
qed

section \<open>The median helper\<close>

lemma ticks_compare_le: "ticks_compare a b \<le> 0 \<longleftrightarrow> a \<le> b"
  by (auto simp: ticks_compare_def)

lemma qsort_insert_insort: "qsort_insert ticks_compare x ys = insort x ys"
  by (induction ys) (simp_all add: ticks_compare_le)

lemma qsort_sort: "qsort ticks_compare xs = sort xs"
proof (induction xs)
  case Nil
  show ?case by simp
next
  case (Cons x xs)
  then show ?case by (simp add: qsort_insert_insort)
qed

lemma sort_nil_iff: "sort xs = [] \<longleftrightarrow> xs = []" for xs :: "ticks list"
  using length_sort [of "\<lambda>x. x" xs] by (metis length_0_conv)

lemma median_closed:
  "median_non_zero_ticks ok xs =
     (let nz = sort (filter (\<lambda>v. v \<noteq> 0) xs); k = length nz
      in if \<not> ok \<or> nz = [] then NaN
         else if even k
         then dbl_div (dbl_add (dbl_of_ticks (nz ! (k div 2 - 1))) (dbl_of_ticks (nz ! (k div 2))))
                (Finite 2)
         else dbl_of_ticks (nz ! (k div 2)))"
proof -
  let ?nz = "filter (\<lambda>v. v \<noteq> 0) xs"
  have x: "xs = [] \<Longrightarrow> ?nz = []" by simp
  show ?thesis
  proof (cases "\<not> ok \<or> ?nz = []")
    case True
    then show ?thesis
      unfolding median_non_zero_ticks_def Let_def sort_nil_iff by auto
  next
    case False
    then have ok: "ok" and nz: "?nz \<noteq> []" and xs: "xs \<noteq> []" using x by auto
    have l: "length (sort ?nz) = length ?nz" by simp
    have ev: "length ?nz mod 2 = 0 \<longleftrightarrow> even (length ?nz)" by presburger
    show ?thesis
      unfolding median_non_zero_ticks_def Let_def sort_nil_iff qsort_sort l ev
      using ok nz xs by simp
  qed
qed

text \<open>Up to \<open>2 ^ 52\<close> the conversions, the sum and its half are exact.\<close>

lemma dbl_of_ticks_exact: "unat v \<le> 2 ^ 53 \<Longrightarrow> dbl_of_ticks v = Finite (real (unat v))"
  by (simp only: dbl_of_ticks_def dbl_of_real_nat)

lemma mean_exact:
  assumes "unat a \<le> 2 ^ 52" "unat b \<le> 2 ^ 52"
  shows "dbl_div (dbl_add (dbl_of_ticks a) (dbl_of_ticks b)) (Finite 2)
       = Finite ((real (unat a) + real (unat b)) / 2)"
proof -
  have a: "dbl_of_ticks a = Finite (real (unat a))" and b: "dbl_of_ticks b = Finite (real (unat b))"
    using assms by (simp_all add: dbl_of_ticks_exact)
  have s: "unat a + unat b \<le> 2 ^ 53" using assms by simp
  then have "int (unat a + unat b) \<le> int (2 ^ 53)" by (rule of_nat_mono)
  then have i: "\<bar>int (unat a + unat b)\<bar> \<le> 2 ^ 53" by simp
  have r: "real (unat a) + real (unat b) = real (unat a + unat b)" by (simp del: of_nat_unat)
  have h: "real (unat a + unat b) / 2 = real_of_int (int (unat a + unat b)) / 2 ^ 1"
    by (simp del: of_nat_unat of_nat_add)
  have "dbl_add (Finite (real (unat a))) (Finite (real (unat b))) = Finite (real (unat a + unat b))"
    unfolding dbl_add.simps r by (rule dbl_of_real_nat [OF s])
  moreover have "dbl_div (Finite (real (unat a + unat b))) (Finite 2)
      = Finite (real (unat a + unat b) / 2)"
    using dbl_of_real_dyadic [OF i, of 1] unfolding h [symmetric] by simp
  ultimately show ?thesis unfolding a b r by (simp only:)
qed

lemma median_exact:
  assumes "\<forall>v \<in> set xs. unat v \<le> 2 ^ 52"
  shows "median_non_zero_ticks ok xs =
     (let nz = sort (filter (\<lambda>v. v \<noteq> 0) xs); k = length nz
      in if \<not> ok \<or> nz = [] then NaN
         else if even k
         then Finite ((real (unat (nz ! (k div 2 - 1))) + real (unat (nz ! (k div 2)))) / 2)
         else Finite (real (unat (nz ! (k div 2)))))"
proof -
  let ?nz = "sort (filter (\<lambda>v. v \<noteq> 0) xs)"
  let ?k = "length ?nz"
  have small: "unat (?nz ! i) \<le> 2 ^ 52" if "i < ?k" for i
  proof -
    have "?nz ! i \<in> set ?nz" using that by (rule nth_mem)
    then have "?nz ! i \<in> set xs" by simp
    with assms show ?thesis by blast
  qed
  show ?thesis
  proof (cases "\<not> ok \<or> ?nz = []")
    case True
    then show ?thesis unfolding median_closed Let_def by (simp only: if_True)
  next
    case False
    then have "?nz \<noteq> []" by blast
    then have k: "0 < ?k" by (rule length_greater_0_conv [THEN iffD2])
    then have i: "?k div 2 < ?k" "?k div 2 - 1 < ?k" by arith+
    have "unat (?nz ! (?k div 2)) \<le> 2 ^ 53" using small [OF i(1)] by simp
    then have one: "dbl_of_ticks (?nz ! (?k div 2)) = Finite (real (unat (?nz ! (?k div 2))))"
      by (rule dbl_of_ticks_exact)
    note two = mean_exact [OF small [OF i(2)] small [OF i(1)]]
    have m: "median_non_zero_ticks ok xs =
        (if even ?k
         then dbl_div (dbl_add (dbl_of_ticks (?nz ! (?k div 2 - 1))) (dbl_of_ticks (?nz ! (?k div 2))))
                (Finite 2)
         else dbl_of_ticks (?nz ! (?k div 2)))"
      using False unfolding median_closed Let_def by (simp only: if_False)
    show ?thesis
    proof (cases "even ?k")
      case True
      with False m show ?thesis unfolding Let_def by (simp only: if_True if_False two)
    next
      case False
      with \<open>\<not> (\<not> ok \<or> ?nz = [])\<close> m show ?thesis
        unfolding Let_def by (simp only: if_False one)
    qed
  qed
qed

lemma median_example: "median_non_zero_ticks True [0, 0, 5, 0, 3] = Finite 4"
  by (simp add: median_non_zero_ticks_def Let_def ticks_compare_def dbl_of_ticks_def)

text \<open>
  Claim C7. \<open>median_non_zero_ticks\<close> drops the zeros, sorts what is left in ascending
  order and returns the middle element converted to double, or half the sum of the two
  middle elements, computed in double, when their number is even. While no sample
  exceeds \<open>2 ^ 52\<close> nothing is rounded: the result is the middle element, or the mean of
  the two middle elements. For the input 0, 0, 5, 0, 3 it returns 4. When every sample
  is zero, or when the allocation of the scratch array fails, it returns NaN.
\<close>

theorem median_of_non_zero:
  "median_non_zero_ticks ok xs =
     (let nz = sort (filter (\<lambda>v. v \<noteq> 0) xs); k = length nz
      in if \<not> ok \<or> nz = [] then NaN
         else if even k
         then dbl_div (dbl_add (dbl_of_ticks (nz ! (k div 2 - 1))) (dbl_of_ticks (nz ! (k div 2))))
                (Finite 2)
         else dbl_of_ticks (nz ! (k div 2))) \<and>
   ((\<forall>v \<in> set xs. unat v \<le> 2 ^ 52) \<longrightarrow>
      median_non_zero_ticks ok xs =
        (let nz = sort (filter (\<lambda>v. v \<noteq> 0) xs); k = length nz
         in if \<not> ok \<or> nz = [] then NaN
            else if even k
            then Finite ((real (unat (nz ! (k div 2 - 1))) + real (unat (nz ! (k div 2)))) / 2)
            else Finite (real (unat (nz ! (k div 2)))))) \<and>
   median_non_zero_ticks True [0, 0, 5, 0, 3] = Finite 4 \<and>
   ((\<forall>v \<in> set xs. v = 0) \<longrightarrow> median_non_zero_ticks ok xs = NaN) \<and>
   median_non_zero_ticks False xs = NaN"
proof (intro conjI impI)
  show "median_non_zero_ticks ok xs =
     (let nz = sort (filter (\<lambda>v. v \<noteq> 0) xs); k = length nz
      in if \<not> ok \<or> nz = [] then NaN
         else if even k
         then dbl_div (dbl_add (dbl_of_ticks (nz ! (k div 2 - 1))) (dbl_of_ticks (nz ! (k div 2))))
                (Finite 2)
         else dbl_of_ticks (nz ! (k div 2)))"
    by (rule median_closed)
  show "median_non_zero_ticks True [0, 0, 5, 0, 3] = Finite 4"
    by (rule median_example)
  show "median_non_zero_ticks False xs = NaN"
    by (simp add: median_non_zero_ticks_def)
  {
    assume "\<forall>v \<in> set xs. v = 0"
    then have "filter (\<lambda>v. v \<noteq> 0) xs = []" by (simp add: filter_empty_conv)
    then show "median_non_zero_ticks ok xs = NaN"
      by (simp add: median_non_zero_ticks_def)
  }
  assume "\<forall>v \<in> set xs. unat v \<le> 2 ^ 52"
  then show "median_non_zero_ticks ok xs =
        (let nz = sort (filter (\<lambda>v. v \<noteq> 0) xs); k = length nz
         in if \<not> ok \<or> nz = [] then NaN
            else if even k
            then Finite ((real (unat (nz ! (k div 2 - 1))) + real (unat (nz ! (k div 2)))) / 2)
            else Finite (real (unat (nz ! (k div 2)))))"
    by (rule median_exact)
qed

theorem median_of_non_zero_witness:
  "median_non_zero_ticks True [0, 0, 0] = NaN \<and>
   median_non_zero_ticks True [0, 9, 0, 2, 4] = Finite 4"
proof -
  have "\<forall>v \<in> set [0, 0, 0 :: ticks]. v = 0" by simp
  then have "median_non_zero_ticks True [0, 0, 0] = NaN"
    using median_of_non_zero [of True "[0, 0, 0]"] by blast
  moreover have "\<forall>v \<in> set [0, 9, 0, 2, 4 :: ticks]. unat v \<le> 2 ^ 52" by simp
  then have "median_non_zero_ticks True [0, 9, 0, 2, 4] =
        (let nz = sort (filter (\<lambda>v. v \<noteq> 0) [0, 9, 0, 2, 4 :: ticks]); k = length nz
         in if \<not> True \<or> nz = [] then NaN
            else if even k
            then Finite ((real (unat (nz ! (k div 2 - 1))) + real (unat (nz ! (k div 2)))) / 2)
            else Finite (real (unat (nz ! (k div 2)))))"
    using median_of_non_zero [of True "[0, 9, 0, 2, 4]"] by blast
  then have "median_non_zero_ticks True [0, 9, 0, 2, 4] = Finite 4"
    by (simp del: of_nat_unat)
  ultimately show ?thesis by simp
qed

lemma mean_ge_one:
  assumes "a \<noteq> 0" "b \<noteq> 0"
  shows "\<exists>r. dbl_div (dbl_add (dbl_of_ticks a) (dbl_of_ticks b)) (Finite 2) = Finite r \<and> 1 \<le> r"
proof -
  let ?a = "r64 (real (unat a))" and ?b = "r64 (real (unat b))"
  have e2: "r64 2 = 2" using r64_of_int [of 2] by simp
  have e1: "r64 1 = 1" using r64_of_int [of 1] by simp
  have e65: "r64 (2 ^ 65) = 2 ^ 65" using r64_scaled [of 1 65] by simp
  have lo: "2 \<le> ?a + ?b"
    using dbl_of_ticks_ge_one [OF assms(1)] dbl_of_ticks_ge_one [OF assms(2)] by simp
  have hi: "?a + ?b \<le> 2 ^ 65"
    using dbl_of_ticks_finite(3) [of a] dbl_of_ticks_finite(3) [of b] by simp
  from r64_between [OF lo hi e2 e65]
  have s: "2 \<le> r64 (?a + ?b)" "r64 (?a + ?b) \<le> 2 ^ 65" by simp_all
  have "(2::real) ^ 65 \<le> 2 ^ 1023" by simp
  with lo hi have "\<bar>?a + ?b\<bar> \<le> 2 ^ 1023" by linarith
  then have sum: "dbl_add (dbl_of_ticks a) (dbl_of_ticks b) = Finite (r64 (?a + ?b))"
    by (simp only: dbl_of_ticks_finite(1) dbl_add.simps dbl_of_real_finite)
  have lo2: "1 \<le> r64 (?a + ?b) / 2" and hi2: "r64 (?a + ?b) / 2 \<le> 2 ^ 64"
    using s by simp_all
  from r64_between [OF lo2 hi2 e1 r64_2p64]
  have h: "1 \<le> r64 (r64 (?a + ?b) / 2)" by simp
  have "(2::real) ^ 64 \<le> 2 ^ 1023" by simp
  with lo2 hi2 have "\<bar>r64 (?a + ?b) / 2\<bar> \<le> 2 ^ 1023" by linarith
  then have "dbl_div (Finite (r64 (?a + ?b))) (Finite 2) = Finite (r64 (r64 (?a + ?b) / 2))"
    by (simp add: dbl_of_real_finite)
  with sum h show ?thesis by simp
qed

lemma median_at_least_one:
  "median_non_zero_ticks ok xs = NaN \<or>
   (\<exists>r. median_non_zero_ticks ok xs = Finite r \<and> 1 \<le> r)"
proof -
  let ?nz = "sort (filter (\<lambda>v. v \<noteq> 0) xs)"
  let ?k = "length ?nz"
  have pos: "?nz ! i \<noteq> 0" if "i < ?k" for i
  proof -
    have "?nz ! i \<in> set ?nz" using that by (rule nth_mem)
    then show ?thesis by simp
  qed
  show ?thesis
  proof (cases "\<not> ok \<or> ?nz = []")
    case True
    then show ?thesis by (simp add: median_closed)
  next
    case False
    then have "?nz \<noteq> []" by blast
    then have k: "0 < ?k" by (rule length_greater_0_conv [THEN iffD2])
    then have i: "?k div 2 < ?k" "?k div 2 - 1 < ?k" by arith+
    have m: "median_non_zero_ticks ok xs =
        (if even ?k
         then dbl_div (dbl_add (dbl_of_ticks (?nz ! (?k div 2 - 1))) (dbl_of_ticks (?nz ! (?k div 2))))
                (Finite 2)
         else dbl_of_ticks (?nz ! (?k div 2)))"
      using False unfolding median_closed Let_def by (simp only: if_False)
    show ?thesis
    proof (cases "even ?k")
      case True
      with m mean_ge_one [OF pos [OF i(2)] pos [OF i(1)]] show ?thesis
        by (simp only: if_True) blast
    next
      case False
      with m dbl_of_ticks_finite(1) [of "?nz ! (?k div 2)"] dbl_of_ticks_ge_one [OF pos [OF i(1)]]
      show ?thesis by (simp only: if_False) blast
    qed
  qed
qed

lemma median_binary64: "is_binary64 (median_non_zero_ticks ok xs)"
  unfolding median_closed Let_def
  by (simp add: dbl_of_ticks_def)

section \<open>The correction is positive\<close>

lemma round_samples_length [simp]: "length (round_samples e n k) = unat n"
  by (simp add: round_samples_def)

lemma round_samples_bound: "length (round_samples e n k) < 2 ^ 32"
  using unsigned_less [of n, where ?'a = nat] by simp

lemma round_deviation:
  "\<exists>vals ad. get_abs_deviation (round_samples e n k) = Some (vals, ad)"
  by (rule get_abs_deviation_total [OF round_samples_bound])

lemma retry_total: "\<exists>c. retry e a n tries pw k out = Some c"
proof (induction "nat tries" arbitrary: tries pw k out)
  case 0
  obtain vals ad where r: "get_abs_deviation (round_samples e n k) = Some (vals, ad)"
    using round_deviation by blast
  from 0 have "\<not> tries > 0" by simp
  with r show ?case
    by (subst retry.simps) (simp add: Let_def)
next
  case (Suc d)
  obtain vals ad where r: "get_abs_deviation (round_samples e n k) = Some (vals, ad)"
    using round_deviation by blast
  from Suc have t: "tries > 0" and d: "d = nat (tries - 1)" by simp_all
  show ?case
  proof (cases "dbl_gt (std_pp_of ad) PFD_CORRECTION_CONF")
    case True
    with r t Suc.hyps(1) [OF d] show ?thesis
      by (subst retry.simps) (simp add: Let_def)
  next
    case False
    with r show ?thesis
      by (subst retry.simps) (simp add: Let_def)
  qed
qed

lemma arch_default_binary64: "is_binary64 (arch_default a)"
  by (cases a) (simp_all add: PFD_CONSERVATIVE_DEFAULT_def)

lemma manual_correction_binary64: "is_binary64 (avg (fst (manual_correction e a vals ad out)))"
  by (simp add: manual_correction_def Let_def median_binary64 arch_default_binary64)

lemma get_abs_deviation_binary64:
  assumes "get_abs_deviation vals0 = Some (vals, ad)"
  shows "is_binary64 (avg ad)"
  using get_abs_deviation_ad [OF assms] by auto

lemma retry_binary64:
  "retry e a n tries pw k out = Some c \<Longrightarrow> is_binary64 (avg (c_ad c))"
proof (induction "nat tries" arbitrary: tries pw k out)
  case 0
  obtain vals ad where r: "get_abs_deviation (round_samples e n k) = Some (vals, ad)"
    using round_deviation by blast
  from 0 have "\<not> tries > 0" by simp
  with r 0(2) show ?case
    using get_abs_deviation_binary64 [OF r] manual_correction_binary64
    by (subst (asm) retry.simps) (auto simp: Let_def split: if_splits)
next
  case (Suc d)
  obtain vals ad where r: "get_abs_deviation (round_samples e n k) = Some (vals, ad)"
    using round_deviation by blast
  from Suc have t: "tries > 0" and d: "d = nat (tries - 1)" by simp_all
  show ?case
  proof (cases "dbl_gt (std_pp_of ad) PFD_CORRECTION_CONF")
    case True
    with r t Suc.prems have "retry e a n (tries - 1) (pw + 1) (k + 1)
        (if pw = 1
         then out @ [Warn_recalculating (avg ad)
                       (if isfinite (std_pp_of ad) then std_pp_of ad else Finite 0)]
         else out) = Some c"
      by (subst (asm) retry.simps) (simp add: Let_def)
    then show ?thesis by (rule Suc.hyps(1) [OF d])
  next
    case False
    with r Suc.prems show ?thesis
      using get_abs_deviation_binary64 [OF r]
      by (subst (asm) retry.simps) (auto simp: Let_def)
  qed
qed

lemma sanitize_avg_ge_one:
  assumes "is_binary64 x"
  shows "\<exists>r. f_corrected_avg (sanitize_avg e x pos out) = Finite r \<and> 1 \<le> r \<and> r64 r = r"
proof (cases x)
  case (Finite r)
  show ?thesis
  proof (cases "r \<le> 0")
    case True
    let ?m = "fst (measure_minimum_tick_delta (clock e) 64 pos)"
    show ?thesis
    proof (cases "?m > 0")
      case True
      then have "?m \<noteq> 0" by (simp add: word_greater_zero_iff)
      from dbl_of_ticks_ge_one [OF this] True Finite \<open>r \<le> 0\<close> show ?thesis
        by (simp add: sanitize_avg_def Let_def dbl_of_ticks_finite(1) del: of_nat_unat)
    next
      case False
      with Finite \<open>r \<le> 0\<close> show ?thesis
        using r64_of_int [of 32] by (simp add: sanitize_avg_def Let_def PFD_CONSERVATIVE_DEFAULT_def)
    qed
  next
    case False
    with Finite assms show ?thesis
      using r64_of_int [of 1] by (simp add: sanitize_avg_def Let_def)
  qed
qed (use r64_of_int [of 32] in \<open>simp_all add: sanitize_avg_def PFD_CONSERVATIVE_DEFAULT_def\<close>)

text \<open>The conversion of \<open>UINT64_MAX\<close> rounds up to \<open>2 ^ 64\<close>.\<close>

lemma dbl_of_ticks_UINT64_MAX: "dbl_of_ticks UINT64_MAX = Finite (2 ^ 64)"
proof -
  have "unat (- 1 :: ticks) = 2 ^ 64 - 1"
    by (simp add: unsigned_minus_1_eq_mask mask_eq_exp_minus_1)
  then have "real (unat (- 1 :: ticks)) = real (2 ^ 64 - 1)" by (simp only:)
  also have "\<dots> = 2 ^ 64 - 1" by simp
  finally have "r64 (real (unat (- 1 :: ticks))) = 2 ^ 64" by (simp only: r64_2p64m1)
  then show ?thesis by (simp only: dbl_of_ticks_finite(1) UINT64_MAX_def)
qed

lemma UINT64_MAX_nonzero: "UINT64_MAX \<noteq> 0"
  by (simp add: UINT64_MAX_def)

text \<open>A double below \<open>2 ^ 64\<close> is at most \<open>2 ^ 64 - 2048\<close>, and adding one half to it does
  not reach \<open>2 ^ 64\<close>: the cast to \<open>ticks\<close> is defined.\<close>

lemma add_half_in_range:
  assumes "1 \<le> r" "r64 r = r" "r < 2 ^ 64"
  shows "1 \<le> r64 (r + 1 / 2)" "r64 (r + 1 / 2) < 2 ^ 64"
proof -
  have e1: "r64 1 = 1" using r64_of_int [of 1] by simp
  have "1 \<le> r + 1 / 2" using assms(1) by simp
  then have "r64 1 \<le> r64 (r + 1 / 2)" by (rule r64_mono)
  then show "1 \<le> r64 (r + 1 / 2)" by (simp only: e1)
  let ?t = "18446744073709549568 + 1 / 2 :: real"
  have "r \<le> 2 ^ 64 - 2048" by (rule r64_below_2p64 [OF assms(2,3)])
  then have "r + 1 / 2 \<le> ?t" by simp
  then have m: "r64 (r + 1 / 2) \<le> r64 ?t" by (rule r64_mono)
  have "ulp_exp ?t = 63 - 52" by (rule ulp_exp_eq) simp_all
  then have "ulp_exp ?t = 11" by simp
  with r64_error [of ?t] have "\<bar>r64 ?t - ?t\<bar> \<le> 1024" by simp
  then have "r64 ?t < 2 ^ 64" by simp
  with m show "r64 (r + 1 / 2) < 2 ^ 64" by (rule le_less_trans)
qed

lemma round_correction_nonzero:
  assumes "1 \<le> r" "r64 r = r"
  shows "\<exists>c v out1. round_correction (Finite r) out = Inr (c, v, out1) \<and> c \<noteq> 0"
proof (cases "2 ^ 64 \<le> r")
  case True
  then show ?thesis
    by (simp add: round_correction_def dbl_of_ticks_UINT64_MAX dbl_ge_def UINT64_MAX_nonzero)
next
  case False
  then have lt: "r < 2 ^ 64" by simp
  note b = add_half_in_range [OF assms lt]
  have "(2::real) ^ 64 + 1 / 2 \<le> 2 ^ 1023" by simp
  with assms(1) lt have "\<bar>r + 1 / 2\<bar> \<le> 2 ^ 1023" by linarith
  then have "dbl_add (Finite r) (Finite (1 / 2)) = Finite (r64 (r + 1 / 2))"
    by (simp only: dbl_add.simps dbl_of_real_finite)
  moreover have "- 1 < r64 (r + 1 / 2) \<and> r64 (r + 1 / 2) < 2 ^ 64" using b by simp
  ultimately obtain c where c: "ticks_of_dbl (dbl_add (Finite r) (Finite (1 / 2))) = Some c"
    by simp
  show ?thesis
    using False c
    by (cases "c = 0") (simp_all add: round_correction_def dbl_of_ticks_UINT64_MAX dbl_ge_def)
qed

lemma enforce_positive_nonzero:
  "c \<noteq> 0 \<Longrightarrow> enforce_positive e c sp pos out = Inr (c, sp, out)"
  by (simp add: enforce_positive_def word_le_nat_alt unat_eq_zero)

lemma enforce_positive_returns:
  "\<exists>c sp1 out1. enforce_positive e c0 sp pos out = Inr (c, sp1, out1) \<and> c \<noteq> 0"
proof (cases "c0 = 0")
  case False
  then show ?thesis by (simp add: enforce_positive_nonzero)
next
  case True
  have t: "ticks_of_dbl (dbl_add PFD_CONSERVATIVE_DEFAULT (Finite (1 / 2))) = Some 32"
    by (simp add: PFD_CONSERVATIVE_DEFAULT_def)
  show ?thesis
    using True by (simp add: enforce_positive_def Let_def t word_greater_zero_iff)
qed

lemma pfd_store_init_returns:
  assumes "alloc_ok e"
  shows "\<exists>res. pfd_store_init e a old n = Some (Inr res) \<and> pfd_correction (state res) \<noteq> 0"
proof -
  obtain c where c: "retry e a n 10 0 0 [] = Some c"
    using retry_total by blast
  let ?fx = "sanitize_avg e (avg (c_ad c)) 0 (c_log c)"
  obtain r where r: "f_corrected_avg ?fx = Finite r" "1 \<le> r" "r64 r = r"
    using sanitize_avg_ge_one [OF retry_binary64 [OF c]] by blast
  obtain c1 v out1 where rc: "round_correction (Finite r) (f_log ?fx) = Inr (c1, v, out1)"
    and c1: "c1 \<noteq> 0"
    using round_correction_nonzero [OF r(2,3)] by blast
  let ?out2 = "if dbl_le (avg (c_ad c)) (Finite 0) then out1 @ [Warn_le_zero_default] else out1"
  have ep: "enforce_positive e c1 (c_std_pp c) (f_pos ?fx) ?out2 = Inr (c1, c_std_pp c, ?out2)"
    by (rule enforce_positive_nonzero [OF c1])
  have "0 < c1" using c1 by (simp add: word_greater_zero_iff)
  then show ?thesis
    using assms c1 unfolding pfd_store_init_def Let_def c option.case r(1) rc sum.case prod.case ep
    by simp
qed

text \<open>
  Claim C1. Whatever the capacity, the samples of the measurement rounds, the readings
  of the counter and the state left by an earlier call, a call of \<open>pfd_store_init\<close>
  that returns leaves a correction greater than 0. The call returns whenever the
  allocations of the store succeed, and fails in the first assertion otherwise; the
  final assertion on the correction never fails, and it is the only way past a
  correction that is not positive. The result does not depend on the earlier state.
\<close>

theorem correction_positive:
  "(\<forall>res. pfd_store_init e a old n = Some (Inr res) \<longrightarrow> 0 < pfd_correction (state res)) \<and>
   (alloc_ok e \<longrightarrow> (\<exists>res. pfd_store_init e a old n = Some (Inr res))) \<and>
   (\<not> alloc_ok e \<longrightarrow> pfd_store_init e a old n = Some (Inl Assert_alloc)) \<and>
   pfd_store_init e a old n \<noteq> Some (Inl Assert_correction) \<and>
   pfd_store_init e a old n \<noteq> None \<and>
   (\<forall>old1. pfd_store_init e a old1 n = pfd_store_init e a old n)"
proof (intro conjI allI impI)
  fix res
  assume "pfd_store_init e a old n = Some (Inr res)"
  moreover from this have "alloc_ok e"
    by (auto simp: pfd_store_init_def split: if_splits)
  ultimately show "0 < pfd_correction (state res)"
    using pfd_store_init_returns [of e a old n] by (auto simp: word_greater_zero_iff)
next
  assume "alloc_ok e"
  then show "\<exists>res. pfd_store_init e a old n = Some (Inr res)"
    using pfd_store_init_returns [of e a old n] by blast
next
  assume "\<not> alloc_ok e"
  then show "pfd_store_init e a old n = Some (Inl Assert_alloc)"
    by (simp add: pfd_store_init_def)
next
  show "pfd_store_init e a old n \<noteq> Some (Inl Assert_correction)"
    using pfd_store_init_returns [of e a old n]
    by (cases "alloc_ok e") (auto simp: pfd_store_init_def)
  show "pfd_store_init e a old n \<noteq> None"
    using pfd_store_init_returns [of e a old n]
    by (cases "alloc_ok e") (auto simp: pfd_store_init_def)
  fix old1
  show "pfd_store_init e a old1 n = pfd_store_init e a old n"
    by (simp add: pfd_store_init_def)
qed

theorem correction_positive_witness:
  "\<exists>res. pfd_store_init
      \<lparr>alloc_ok = True, scratch_ok = True, round_delta = (\<lambda>k i. 0), clock = (\<lambda>n. 0)\<rparr>
      Other_arch \<lparr>pfd_correction = 0, pfd_store_0 = []\<rparr> 4 = Some (Inr res) \<and>
     0 < pfd_correction (state res)"
  using correction_positive
    [of "\<lparr>alloc_ok = True, scratch_ok = True, round_delta = (\<lambda>k i. 0), clock = (\<lambda>n. 0)\<rparr>"
        Other_arch "\<lparr>pfd_correction = 0, pfd_store_0 = []\<rparr>" 4]
  by auto

section \<open>The quality gate and the retries\<close>

lemma retry_unfold:
  assumes "get_abs_deviation (round_samples e n k) = Some (vals, ad)"
  shows "retry e a n tries pw k out =
     (if round_fails e n k
      then (if tries > 0
            then retry e a n (tries - 1) (pw + 1) (k + 1)
                   (if pw = 1
                    then out @ [Warn_recalculating (avg ad)
                                  (if isfinite (std_pp_of ad) then std_pp_of ad else Finite 0)]
                    else out)
            else Some \<lparr>c_vals = vals,
                       c_ad = fst (manual_correction e a vals ad
                                (if pw = 1
                                 then out @ [Warn_recalculating (avg ad)
                                    (if isfinite (std_pp_of ad) then std_pp_of ad else Finite 0)]
                                 else out)),
                       c_std_pp = std_pp_of ad,
                       c_log = snd (manual_correction e a vals ad
                                (if pw = 1
                                 then out @ [Warn_recalculating (avg ad)
                                    (if isfinite (std_pp_of ad) then std_pp_of ad else Finite 0)]
                                 else out)),
                       c_rounds = k + 1\<rparr>)
      else Some \<lparr>c_vals = vals, c_ad = ad, c_std_pp = std_pp_of ad, c_log = out,
                 c_rounds = k + 1\<rparr>)"
  using assms
  by (subst retry.simps) (simp add: Let_def round_fails_def round_quality_def)

lemma of_nat_eq_1_small: "k \<le> 10 \<Longrightarrow> (of_nat k :: 32 word) = 1 \<longleftrightarrow> k = 1"
proof -
  assume "k \<le> 10"
  then have "k < 2 ^ 32" by simp
  then have "unat (of_nat k :: 32 word) = k" by (rule unat_of_nat32)
  then show ?thesis by (metis unat_1 of_nat_1)
qed

lemma retry_inv:
  "k \<le> 10 \<Longrightarrow> retry e a n (10 - int k) (of_nat k) k out = Some c \<Longrightarrow>
   k < c_rounds c \<and> c_rounds c \<le> 11 \<and>
   (\<forall>j. k \<le> j \<and> j + 1 < c_rounds c \<longrightarrow> round_fails e n j) \<and>
   (c_rounds c < 11 \<longrightarrow> \<not> round_fails e n (c_rounds c - 1)) \<and>
   (\<exists>ad pre. get_abs_deviation (round_samples e n (c_rounds c - 1)) = Some (c_vals c, ad) \<and>
      c_std_pp c = std_pp_of ad \<and>
      (\<exists>x y. pre = out @ (if k \<le> 1 \<and> 3 \<le> c_rounds c then [Warn_recalculating x y] else [])) \<and>
      (if round_fails e n (c_rounds c - 1)
       then c_ad c = fst (manual_correction e a (c_vals c) ad pre) \<and>
            c_log c = snd (manual_correction e a (c_vals c) ad pre)
       else c_ad c = ad \<and> c_log c = pre))"
proof (induction "10 - k" arbitrary: k out)
  case 0
  then have k: "k = 10" by simp
  obtain vals ad where r: "get_abs_deviation (round_samples e n k) = Some (vals, ad)"
    using round_deviation by blast
  have pw: "(of_nat k :: 32 word) \<noteq> 1" using k by simp
  show ?case
  proof (cases "round_fails e n k")
    case True
    with 0(3) have c: "c = \<lparr>c_vals = vals, c_ad = fst (manual_correction e a vals ad out),
        c_std_pp = std_pp_of ad, c_log = snd (manual_correction e a vals ad out),
        c_rounds = k + 1\<rparr>"
      unfolding retry_unfold [OF r] using k pw by simp
    show ?thesis
      using True r k by (auto simp: c)
  next
    case False
    with 0(3) have c: "c = \<lparr>c_vals = vals, c_ad = ad, c_std_pp = std_pp_of ad, c_log = out,
        c_rounds = k + 1\<rparr>"
      unfolding retry_unfold [OF r] by simp
    show ?thesis
      using False r k by (auto simp: c)
  qed
next
  case (Suc d)
  then have k: "k < 10" and d: "d = 10 - (k + 1)" by simp_all
  obtain vals ad where r: "get_abs_deviation (round_samples e n k) = Some (vals, ad)"
    using round_deviation by blast
  have pw: "(of_nat k :: 32 word) = 1 \<longleftrightarrow> k = 1"
    using k by (intro of_nat_eq_1_small) simp
  show ?case
  proof (cases "round_fails e n k")
    case False
    with Suc(4) have c: "c = \<lparr>c_vals = vals, c_ad = ad, c_std_pp = std_pp_of ad, c_log = out,
        c_rounds = k + 1\<rparr>"
      unfolding retry_unfold [OF r] by simp
    show ?thesis
      using False r k by (auto simp: c)
  next
    case True
    let ?w = "Warn_recalculating (avg ad) (if isfinite (std_pp_of ad) then std_pp_of ad else Finite 0)"
    let ?out1 = "if k = 1 then out @ [?w] else out"
    have t: "10 - int k - 1 = 10 - int (k + 1)" by simp
    have p: "(of_nat k :: 32 word) + 1 = of_nat (k + 1)" by simp
    from Suc(4) True k have call: "retry e a n (10 - int (k + 1)) (of_nat (k + 1)) (k + 1) ?out1 = Some c"
      unfolding retry_unfold [OF r] pw t p by simp
    have k1: "k + 1 \<le> 10" using k by simp
    note IH = Suc(1) [OF d k1 call]
    from IH have b: "k + 1 < c_rounds c" "c_rounds c \<le> 11"
      and fl: "\<forall>j. k + 1 \<le> j \<and> j + 1 < c_rounds c \<longrightarrow> round_fails e n j"
      and lt: "c_rounds c < 11 \<longrightarrow> \<not> round_fails e n (c_rounds c - 1)"
      by blast+
    from IH obtain ad1 pre x y where
      l: "get_abs_deviation (round_samples e n (c_rounds c - 1)) = Some (c_vals c, ad1)"
        "c_std_pp c = std_pp_of ad1"
      and pre: "pre = ?out1 @ (if k + 1 \<le> 1 \<and> 3 \<le> c_rounds c then [Warn_recalculating x y] else [])"
      and m: "if round_fails e n (c_rounds c - 1)
       then c_ad c = fst (manual_correction e a (c_vals c) ad1 pre) \<and>
            c_log c = snd (manual_correction e a (c_vals c) ad1 pre)
       else c_ad c = ad1 \<and> c_log c = pre"
      by blast
    have all: "\<forall>j. k \<le> j \<and> j + 1 < c_rounds c \<longrightarrow> round_fails e n j"
    proof (intro allI impI)
      fix j assume j: "k \<le> j \<and> j + 1 < c_rounds c"
      show "round_fails e n j"
      proof (cases "j = k")
        case True
        with \<open>round_fails e n k\<close> show ?thesis by simp
      next
        case False
        with j have "k + 1 \<le> j \<and> j + 1 < c_rounds c" by simp
        with fl show ?thesis by blast
      qed
    qed
    have ex: "\<exists>x y. pre = out @ (if k \<le> 1 \<and> 3 \<le> c_rounds c then [Warn_recalculating x y] else [])"
    proof (cases "k = 0")
      case True
      with pre show ?thesis by auto
    next
      case False
      show ?thesis
      proof (cases "k = 1")
        case True
        with pre b show ?thesis by auto
      next
        case False
        with \<open>k \<noteq> 0\<close> pre show ?thesis by auto
      qed
    qed
    from b all lt l ex m show ?thesis
      by (intro conjI exI [of _ ad1] exI [of _ pre]) simp_all
  qed
qed

lemma sanitize_avg_log:
  "\<exists>s. f_log (sanitize_avg e x pos out) = out @ s \<and>
     (\<forall>m \<in> set s. \<not> is_recalculating m \<and> m \<noteq> Warn_manual \<and> (\<forall>v. m \<noteq> Warn_median v)) \<and>
     (Warn_clamp_one \<in> set s \<longrightarrow> (\<exists>r. x = Finite r \<and> 0 < r \<and> r < 1))"
  by (cases x) (auto simp: sanitize_avg_def Let_def)

lemma round_correction_log:
  assumes "round_correction x out = Inr (c, v, out1)"
  shows "\<exists>s. out1 = out @ s \<and>
     (\<forall>m \<in> set s. \<not> is_recalculating m \<and> m \<noteq> Warn_manual \<and> m \<noteq> Warn_clamp_one \<and>
        (\<forall>v. m \<noteq> Warn_median v))"
  using assms
  by (auto simp: round_correction_def split: if_splits option.splits)

lemma manual_correction_log:
  "\<exists>t. snd (manual_correction e a vals ad pre) = pre @ Warn_manual # t \<and>
     (\<forall>m \<in> set t. \<not> is_recalculating m \<and> m \<noteq> Warn_clamp_one \<and> m \<noteq> Warn_manual) \<and>
     (\<forall>v. Warn_median v \<in> set t \<longrightarrow>
        avg (fst (manual_correction e a vals ad pre)) = v \<and> (\<exists>r. v = Finite r \<and> 1 \<le> r))"
proof (cases "isfinite (median_non_zero_ticks (scratch_ok e) vals) \<and>
    dbl_gt (median_non_zero_ticks (scratch_ok e) vals) (Finite 0)")
  case True
  then obtain r where "median_non_zero_ticks (scratch_ok e) vals = Finite r" "1 \<le> r"
    using median_at_least_one [of "scratch_ok e" vals] by auto
  with True show ?thesis
    by (simp add: manual_correction_def Let_def)
next
  case False
  then show ?thesis
    by (auto simp: manual_correction_def Let_def)
qed

lemma pfd_store_init_result:
  assumes "alloc_ok e" and c: "retry e a n 10 0 0 [] = Some c"
  shows "\<exists>corr s q. pfd_store_init e a old n =
       Some (Inr \<lparr>state = \<lparr>pfd_correction = corr, pfd_store_0 = c_vals c\<rparr>,
                  printed = c_log c @ s @ [Set_correction corr q],
                  rounds = c_rounds c\<rparr>) \<and>
     (\<forall>m \<in> set s. \<not> is_recalculating m \<and> m \<noteq> Warn_manual \<and> (\<forall>v. m \<noteq> Warn_median v)) \<and>
     (Warn_clamp_one \<in> set s \<longrightarrow> (\<exists>r. avg (c_ad c) = Finite r \<and> 0 < r \<and> r < 1))"
proof -
  let ?fx = "sanitize_avg e (avg (c_ad c)) 0 (c_log c)"
  obtain r where r: "f_corrected_avg ?fx = Finite r" "1 \<le> r" "r64 r = r"
    using sanitize_avg_ge_one [OF retry_binary64 [OF c]] by blast
  obtain s1 where s1: "f_log ?fx = c_log c @ s1"
    "\<forall>m \<in> set s1. \<not> is_recalculating m \<and> m \<noteq> Warn_manual \<and> (\<forall>v. m \<noteq> Warn_median v)"
    "Warn_clamp_one \<in> set s1 \<longrightarrow> (\<exists>r. avg (c_ad c) = Finite r \<and> 0 < r \<and> r < 1)"
    using sanitize_avg_log [of e "avg (c_ad c)" 0 "c_log c"] by blast
  obtain c1 v out1 where rc: "round_correction (Finite r) (f_log ?fx) = Inr (c1, v, out1)"
    and c1: "c1 \<noteq> 0"
    using round_correction_nonzero [OF r(2,3)] by blast
  obtain s2 where s2: "out1 = f_log ?fx @ s2"
    "\<forall>m \<in> set s2. \<not> is_recalculating m \<and> m \<noteq> Warn_manual \<and> m \<noteq> Warn_clamp_one \<and>
        (\<forall>v. m \<noteq> Warn_median v)"
    using round_correction_log [OF rc] by blast
  let ?s3 = "if dbl_le (avg (c_ad c)) (Finite 0) then [Warn_le_zero_default] else []"
  let ?out2 = "if dbl_le (avg (c_ad c)) (Finite 0) then out1 @ [Warn_le_zero_default] else out1"
  have out2: "?out2 = c_log c @ (s1 @ s2 @ ?s3)" by (simp add: s1(1) s2(1))
  have ep: "enforce_positive e c1 (c_std_pp c) (f_pos ?fx) ?out2 = Inr (c1, c_std_pp c, ?out2)"
    by (rule enforce_positive_nonzero [OF c1])
  have pos: "0 < c1" using c1 by (simp add: word_greater_zero_iff)
  have eq: "pfd_store_init e a old n =
       Some (Inr \<lparr>state = \<lparr>pfd_correction = c1, pfd_store_0 = c_vals c\<rparr>,
                  printed = c_log c @ (s1 @ s2 @ ?s3)
                    @ [Set_correction c1 (if isfinite (c_std_pp c) then c_std_pp c else Finite 0)],
                  rounds = c_rounds c\<rparr>)"
    using assms(1) pos
    unfolding pfd_store_init_def Let_def c option.case r(1) rc sum.case prod.case
    by (simp add: enforce_positive_nonzero [OF c1] s1(1) s2(1))
  have a: "\<forall>m \<in> set (s1 @ s2 @ ?s3).
      \<not> is_recalculating m \<and> m \<noteq> Warn_manual \<and> (\<forall>v. m \<noteq> Warn_median v)"
    using s1(2) s2(2) by auto
  have b: "Warn_clamp_one \<in> set (s1 @ s2 @ ?s3) \<longrightarrow>
      (\<exists>r. avg (c_ad c) = Finite r \<and> 0 < r \<and> r < 1)"
    using s1(3) s2(2) by auto
  from eq a b show ?thesis by blast
qed

lemma std_pp_of_finite:
  "avg ad = Finite x \<Longrightarrow> x \<noteq> 0 \<Longrightarrow> std_dev ad = Finite s \<Longrightarrow>
   std_pp_of ad =
     dbl_mul (Finite 100) (dbl_sub (Finite 1) (dbl_div (dbl_sub (Finite x) (Finite s)) (Finite x)))"
  by (simp add: std_pp_of_def)

lemma std_pp_of_undefined:
  "\<not> isfinite (avg ad) \<or> avg ad = Finite 0 \<Longrightarrow> std_pp_of ad = NaN"
  by (auto simp: std_pp_of_def)

lemma low_quality_accepted:
  "round_quality e n k = Finite q \<Longrightarrow> q \<le> 3 \<Longrightarrow> \<not> round_fails e n k"
  by (simp add: round_fails_def dbl_gt_def PFD_CORRECTION_CONF_def)

lemma quality_gate:
  "round_fails e n k \<longleftrightarrow>
     round_quality e n k = PInf \<or> (\<exists>q. round_quality e n k = Finite q \<and> 3 < q)"
  by (cases "round_quality e n k")
    (simp_all add: round_fails_def dbl_gt_def PFD_CORRECTION_CONF_def)

lemma calibration_rounds:
  assumes "alloc_ok e"
  shows "\<exists>res. pfd_store_init e a old n = Some (Inr res) \<and>
      1 \<le> rounds res \<and> rounds res \<le> 11 \<and>
      (\<forall>j. j + 1 < rounds res \<longrightarrow> round_fails e n j) \<and>
      (rounds res < 11 \<longrightarrow> \<not> round_fails e n (rounds res - 1)) \<and>
      (Warn_manual \<in> set (printed res) \<longleftrightarrow> round_fails e n (rounds res - 1)) \<and>
      (\<exists>ad. get_abs_deviation (round_samples e n (rounds res - 1))
              = Some (pfd_store_0 (state res), ad)) \<and>
      length (filter is_recalculating (printed res))
        = (if round_fails e n 0 \<and> round_fails e n 1 then 1 else 0)"
proof -
  obtain c where c: "retry e a n 10 0 0 [] = Some c"
    using retry_total by blast
  then have c0: "retry e a n (10 - int 0) (of_nat 0) 0 [] = Some c" by simp
  note inv = retry_inv [OF _ c0]
  from inv have b: "0 < c_rounds c" "c_rounds c \<le> 11"
    and fl: "\<forall>j. j + 1 < c_rounds c \<longrightarrow> round_fails e n j"
    and lt: "c_rounds c < 11 \<longrightarrow> \<not> round_fails e n (c_rounds c - 1)"
    by simp_all
  from inv obtain ad pre x y where
    l: "get_abs_deviation (round_samples e n (c_rounds c - 1)) = Some (c_vals c, ad)"
    and pre: "pre = (if 3 \<le> c_rounds c then [Warn_recalculating x y] else [])"
    and m: "if round_fails e n (c_rounds c - 1)
       then c_ad c = fst (manual_correction e a (c_vals c) ad pre) \<and>
            c_log c = snd (manual_correction e a (c_vals c) ad pre)
       else c_ad c = ad \<and> c_log c = pre"
    by auto
  obtain t where t: "snd (manual_correction e a (c_vals c) ad pre) = pre @ Warn_manual # t"
    "\<forall>m \<in> set t. \<not> is_recalculating m \<and> m \<noteq> Warn_clamp_one \<and> m \<noteq> Warn_manual"
    using manual_correction_log by blast
  obtain corr s q where res: "pfd_store_init e a old n =
       Some (Inr \<lparr>state = \<lparr>pfd_correction = corr, pfd_store_0 = c_vals c\<rparr>,
                  printed = c_log c @ s @ [Set_correction corr q],
                  rounds = c_rounds c\<rparr>)"
    and s: "\<forall>m \<in> set s. \<not> is_recalculating m \<and> m \<noteq> Warn_manual \<and> (\<forall>v. m \<noteq> Warn_median v)"
    using pfd_store_init_result [OF assms c] by blast
  have fs: "filter is_recalculating s = []" using s by (simp add: filter_empty_conv)
  have ft: "filter is_recalculating t = []" using t(2) by (simp add: filter_empty_conv)
  have fpre: "length (filter is_recalculating pre) = (if 3 \<le> c_rounds c then 1 else 0)"
    by (simp add: pre)
  have mpre: "Warn_manual \<notin> set pre" by (simp add: pre)
  have ms: "Warn_manual \<notin> set s" using s by blast
  have three: "3 \<le> c_rounds c \<longleftrightarrow> round_fails e n 0 \<and> round_fails e n 1"
  proof
    assume "3 \<le> c_rounds c"
    then have "0 + 1 < c_rounds c" "1 + 1 < c_rounds c" by simp_all
    with fl show "round_fails e n 0 \<and> round_fails e n 1" by blast
  next
    assume f: "round_fails e n 0 \<and> round_fails e n 1"
    show "3 \<le> c_rounds c"
    proof (rule ccontr)
      assume "\<not> 3 \<le> c_rounds c"
      with b have "c_rounds c - 1 = 0 \<or> c_rounds c - 1 = 1" "c_rounds c < 11" by auto
      with lt f show False by auto
    qed
  qed
  show ?thesis
  proof (cases "round_fails e n (c_rounds c - 1)")
    case True
    with m t have log: "c_log c = pre @ Warn_manual # t" by simp
    show ?thesis
      by (insert b fl lt l True three, intro exI conjI, rule res)
        (simp_all add: log fs ft fpre)
  next
    case False
    with m have log: "c_log c = pre" by simp
    show ?thesis
      by (insert b fl lt l False three mpre ms, intro exI conjI, rule res)
        (simp_all add: log fs fpre)
  qed
qed

lemma summary_std_dev [simp]:
  "std_dev (summary n a l b d) = dbl_sqrt (dbl_div (l_sum_stdev l) (dbl_of_size n))"
  by (simp add: summary_def)

lemma round_quality_closed:
  "round_quality e n k =
     (let vals0 = round_samples e n k;
          a = dbl_div (dbl_of_ticks (sum_list (map clipped vals0))) (dbl_of_size (length vals0));
          l = band_locals (map clipped vals0) a (length vals0)
      in if isfinite a \<and> dbl_ne a (Finite 0)
         then dbl_mul (Finite 100) (dbl_sub (Finite 1)
                (dbl_div (dbl_sub a (dbl_sqrt (dbl_div (l_sum_stdev l) (dbl_of_size (length vals0))))) a))
         else NaN)"
proof -
  obtain vals ad where r: "get_abs_deviation (round_samples e n k) = Some (vals, ad)"
    using round_deviation by blast
  from get_abs_deviation_ad [OF r] show ?thesis
    unfolding round_quality_def r by (auto simp: Let_def std_pp_of_def)
qed

lemma sqrt_2500: "sqrt 2500 = 50"
  by (rule real_sqrt_unique) simp_all

lemma samples_env_round [simp]:
  "length xs < 2 ^ 32 \<Longrightarrow> round_samples (samples_env xs clk) (of_nat (length xs)) k = xs"
  by (simp add: round_samples_def samples_env_def unat_of_nat32 map_nth)

lemma samples_env_simps [simp]:
  "alloc_ok (samples_env xs clk)" "scratch_ok (samples_env xs clk)"
  "clock (samples_env xs clk) = clk"
  by (simp_all add: samples_env_def)

lemma noisy_round [simp]: "round_samples (samples_env [0, 100, 0, 100] clk) 4 k = [0, 100, 0, 100]"
  using samples_env_round [of "[0, 100, 0, 100]" clk k] by simp

lemma noisy_quality: "round_quality (samples_env [0, 100, 0, 100] clk) 4 k = Finite 100"
  unfolding round_quality_closed
  by (simp add: eval_simps sqrt_2500)

lemma noisy_fails: "round_fails (samples_env [0, 100, 0, 100] clk) 4 k"
  by (simp add: round_fails_def noisy_quality dbl_gt_def PFD_CORRECTION_CONF_def)

text \<open>
  A round at the threshold: for the samples 105, 97, 99, 99 the average is 100 and the
  standard deviation is 3. The quotient 97 / 100 is not a double; it is rounded down,
  and the quality that the three further operations give is \<open>3 + 3 / 2 ^ 50\<close>, above
  the threshold.
\<close>

lemma r64_97_100: "r64 (97 / 100) = 8736983277098762 / 2 ^ 53"
  using r64_eval [of "- 1" "97 / 100" 8736983277098762]
  by (simp add: power_int_minus)

lemma sqrt_9: "sqrt 9 = 3"
  by (rule real_sqrt_unique) simp_all

lemma threshold_formula:
  "dbl_mul (Finite 100) (dbl_sub (Finite 1) (dbl_div (dbl_sub (Finite 100) (Finite 3)) (Finite 100)))
     = Finite (3377699720527875 / 2 ^ 50)"
proof -
  have "dbl_of_real (97 / 100) = Finite (r64 (97 / 100))"
    by (rule dbl_of_real_finite) simp
  then have q1: "dbl_div (dbl_sub (Finite 100) (Finite 3)) (Finite 100)
      = Finite (8736983277098762 / 2 ^ 53)"
    by (simp add: dbl_sub_def r64_97_100)
  have q2: "dbl_sub (Finite 1) (Finite (8736983277098762 / 2 ^ 53))
      = Finite (270215977642230 / 2 ^ 53)"
    using dbl_of_real_dyadic [of 270215977642230 53] by (simp add: dbl_sub_def)
  have q3: "dbl_mul (Finite 100) (Finite (270215977642230 / 2 ^ 53))
      = Finite (3377699720527875 / 2 ^ 50)"
    using dbl_of_real_dyadic [of 3377699720527875 50] by simp
  show ?thesis by (simp only: q1 q2 q3)
qed

lemma threshold_round [simp]:
  "round_samples (samples_env [105, 97, 99, 99] clk) 4 k = [105, 97, 99, 99]"
  using samples_env_round [of "[105, 97, 99, 99]" clk k] by simp

lemma threshold_sum_stdev:
  "l_sum_stdev (band_locals [105, 97, 99, 99] (Finite 100) 4) = Finite 36"
  by (simp add: eval_simps)

lemma threshold_deviation:
  "\<exists>ad. get_abs_deviation [105, 97, 99, 99] = Some ([105, 97, 99, 99], ad) \<and>
     avg ad = Finite 100 \<and> std_dev ad = Finite 3 \<and>
     std_pp_of ad = Finite (3377699720527875 / 2 ^ 50)"
proof -
  let ?xs = "[105, 97, 99, 99] :: ticks list"
  obtain vals ad where r: "get_abs_deviation ?xs = Some (vals, ad)"
    using get_abs_deviation_total [of ?xs] by auto
  have v: "vals = ?xs"
    using get_abs_deviation_vals [OF r] by (simp add: clipped_def PFD_VAL_UP_LIMIT_def)
  have c: "map clipped ?xs = ?xs" by (simp add: clipped_def PFD_VAL_UP_LIMIT_def)
  have s: "dbl_div (dbl_of_ticks (sum_list ?xs)) (dbl_of_size (length ?xs)) = Finite 100"
    by (simp add: dbl_of_ticks_def dbl_of_size_def)
  from get_abs_deviation_ad [OF r] obtain d where
    ad: "ad = summary (length ?xs) (Finite 100) (band_locals ?xs (Finite 100) (length ?xs))
         (band_avgs_of (band_locals ?xs (Finite 100) (length ?xs))) d"
    unfolding c s by blast
  have a: "avg ad = Finite 100" by (simp add: ad)
  have len: "length ?xs = 4" by simp
  have sd: "std_dev ad = Finite 3"
    unfolding ad summary_std_dev len threshold_sum_stdev by (simp add: dbl_of_size_def sqrt_9)
  have "std_pp_of ad = dbl_mul (Finite 100)
      (dbl_sub (Finite 1) (dbl_div (dbl_sub (Finite 100) (Finite 3)) (Finite 100)))"
    by (rule std_pp_of_finite [OF a _ sd]) simp
  then have q: "std_pp_of ad = Finite (3377699720527875 / 2 ^ 50)"
    by (simp only: threshold_formula)
  from r v a sd q show ?thesis by blast
qed

lemma threshold_quality:
  "round_quality (samples_env [105, 97, 99, 99] clk) 4 k = Finite (3377699720527875 / 2 ^ 50)"
  using threshold_deviation by (auto simp: round_quality_def)

lemma threshold_fails: "round_fails (samples_env [105, 97, 99, 99] clk) 4 k"
  by (simp add: round_fails_def threshold_quality dbl_gt_def PFD_CORRECTION_CONF_def)

lemma round_correction_99: "round_correction (Finite 99) out = Inr (99, Finite 99, out)"
  by (simp add: round_correction_def dbl_of_ticks_UINT64_MAX dbl_ge_def)

lemma threshold_result:
  "\<exists>res. pfd_store_init (samples_env [105, 97, 99, 99] clk) a old 4 = Some (Inr res) \<and>
     rounds res = 11 \<and> pfd_correction (state res) = 99 \<and>
     Warn_median (Finite 99) \<in> set (printed res)"
proof -
  let ?e = "samples_env [105, 97, 99, 99] clk"
  obtain c where c: "retry ?e a 4 10 0 0 [] = Some c"
    using retry_total by blast
  then have c0: "retry ?e a 4 (10 - int 0) (of_nat 0) 0 [] = Some c" by simp
  note inv = retry_inv [OF _ c0]
  from inv have le: "c_rounds c \<le> 11"
    and lt: "c_rounds c < 11 \<longrightarrow> \<not> round_fails ?e 4 (c_rounds c - 1)"
    by simp_all
  from lt le threshold_fails have n: "c_rounds c = 11" by (cases "c_rounds c < 11") auto
  from inv obtain ad pre where
    l: "get_abs_deviation (round_samples ?e 4 (c_rounds c - 1)) = Some (c_vals c, ad)"
    and m: "if round_fails ?e 4 (c_rounds c - 1)
       then c_ad c = fst (manual_correction ?e a (c_vals c) ad pre) \<and>
            c_log c = snd (manual_correction ?e a (c_vals c) ad pre)
       else c_ad c = ad \<and> c_log c = pre"
    by auto
  have vals: "c_vals c = [105, 97, 99, 99]"
    using get_abs_deviation_vals [OF l] by (simp add: clipped_def PFD_VAL_UP_LIMIT_def)
  have med: "median_non_zero_ticks True [105, 97, 99, 99] = Finite 99"
    by (simp add: median_non_zero_ticks_def Let_def ticks_compare_def dbl_of_ticks_def)
  from m threshold_fails
  have ad: "c_ad c = fst (manual_correction ?e a (c_vals c) ad pre)"
    and log: "c_log c = snd (manual_correction ?e a (c_vals c) ad pre)" by simp_all
  have av: "avg (c_ad c) = Finite 99"
    unfolding ad by (simp add: vals manual_correction_def Let_def med dbl_gt_def)
  have w: "Warn_median (Finite 99) \<in> set (c_log c)"
    unfolding log by (simp add: vals manual_correction_def Let_def med dbl_gt_def)
  have s: "sanitize_avg ?e (Finite 99) 0 (c_log c)
      = \<lparr>f_corrected_avg = Finite 99, f_pos = 0, f_log = c_log c\<rparr>"
    by (simp add: sanitize_avg_def)
  have nz: "(99 :: ticks) \<noteq> 0" by simp
  have "pfd_store_init ?e a old 4 =
      Some (Inr \<lparr>state = \<lparr>pfd_correction = 99, pfd_store_0 = c_vals c\<rparr>,
                 printed = c_log c @ [Set_correction 99
                    (if isfinite (c_std_pp c) then c_std_pp c else Finite 0)],
                 rounds = c_rounds c\<rparr>)"
    unfolding pfd_store_init_def Let_def c option.case
    by (simp add: av s round_correction_99 enforce_positive_nonzero [OF nz])
  with n w show ?thesis by simp
qed

text \<open>
  Claim C5. The quality percentage of a round is \<open>100 * (1 - (avg - std_dev) / avg)\<close>,
  computed in double, when the average is finite and not zero, and NaN otherwise. A
  round is not accepted exactly when that value is above 3 (or infinite): a round whose
  quality is at most 3 is accepted. A call runs at most 11 measurement rounds, the first
  and at most 10 retries: every round before the last one was not accepted, a call that
  stops before the 11th round stops at an accepted round, and the branch that sets the
  correction manually is taken exactly when the last round was not accepted. The
  warning about recalculating is printed once when the first two rounds both fail, and
  not at all otherwise.
\<close>

theorem quality_gate_and_retries:
  "(\<forall>x s. avg ad = Finite x \<and> x \<noteq> 0 \<and> std_dev ad = Finite s \<longrightarrow>
      std_pp_of ad =
        dbl_mul (Finite 100)
          (dbl_sub (Finite 1) (dbl_div (dbl_sub (Finite x) (Finite s)) (Finite x)))) \<and>
   (\<not> isfinite (avg ad) \<or> avg ad = Finite 0 \<longrightarrow> std_pp_of ad = NaN) \<and>
   (\<forall>q. round_quality e n k = Finite q \<and> q \<le> 3 \<longrightarrow> \<not> round_fails e n k) \<and>
   (round_fails e n k \<longleftrightarrow>
      round_quality e n k = PInf \<or> (\<exists>q. round_quality e n k = Finite q \<and> 3 < q)) \<and>
   (alloc_ok e \<longrightarrow>
     (\<exists>res. pfd_store_init e a old n = Some (Inr res) \<and>
        1 \<le> rounds res \<and> rounds res \<le> 11 \<and>
        (\<forall>j. j + 1 < rounds res \<longrightarrow> round_fails e n j) \<and>
        (rounds res < 11 \<longrightarrow> \<not> round_fails e n (rounds res - 1)) \<and>
        (Warn_manual \<in> set (printed res) \<longleftrightarrow> round_fails e n (rounds res - 1)) \<and>
        (\<exists>ad. get_abs_deviation (round_samples e n (rounds res - 1))
                = Some (pfd_store_0 (state res), ad)) \<and>
        length (filter is_recalculating (printed res))
          = (if round_fails e n 0 \<and> round_fails e n 1 then 1 else 0)))"
proof (intro conjI allI impI)
  fix x s
  assume "avg ad = Finite x \<and> x \<noteq> 0 \<and> std_dev ad = Finite s"
  then show "std_pp_of ad =
        dbl_mul (Finite 100)
          (dbl_sub (Finite 1) (dbl_div (dbl_sub (Finite x) (Finite s)) (Finite x)))"
    by (simp add: std_pp_of_finite)
next
  assume "\<not> isfinite (avg ad) \<or> avg ad = Finite 0"
  then show "std_pp_of ad = NaN" by (rule std_pp_of_undefined)
next
  fix q
  assume "round_quality e n k = Finite q \<and> q \<le> 3"
  then show "\<not> round_fails e n k" by (simp add: low_quality_accepted)
next
  show "round_fails e n k \<longleftrightarrow>
      round_quality e n k = PInf \<or> (\<exists>q. round_quality e n k = Finite q \<and> 3 < q)"
    by (rule quality_gate)
next
  assume "alloc_ok e"
  then show "\<exists>res. pfd_store_init e a old n = Some (Inr res) \<and>
        1 \<le> rounds res \<and> rounds res \<le> 11 \<and>
        (\<forall>j. j + 1 < rounds res \<longrightarrow> round_fails e n j) \<and>
        (rounds res < 11 \<longrightarrow> \<not> round_fails e n (rounds res - 1)) \<and>
        (Warn_manual \<in> set (printed res) \<longleftrightarrow> round_fails e n (rounds res - 1)) \<and>
        (\<exists>ad. get_abs_deviation (round_samples e n (rounds res - 1))
                = Some (pfd_store_0 (state res), ad)) \<and>
        length (filter is_recalculating (printed res))
          = (if round_fails e n 0 \<and> round_fails e n 1 then 1 else 0)"
    by (rule calibration_rounds)
qed

theorem quality_gate_and_retries_witness:
  "\<exists>res. pfd_store_init (samples_env [105, 97, 99, 99] stuck_clock) Other_arch fresh_state 4
       = Some (Inr res) \<and>
     round_quality (samples_env [105, 97, 99, 99] stuck_clock) 4 0
       = Finite (3377699720527875 / 2 ^ 50) \<and>
     rounds res = 11 \<and> Warn_manual \<in> set (printed res) \<and>
     length (filter is_recalculating (printed res)) = 1 \<and>
     pfd_correction (state res) = 99"
proof -
  let ?e = "samples_env [105, 97, 99, 99] stuck_clock"
  have f: "round_fails ?e 4 j" for j by (rule threshold_fails)
  have ok: "alloc_ok ?e" by simp
  from quality_gate_and_retries
    [of _ ?e 4 _ Other_arch fresh_state, THEN conjunct2, THEN conjunct2, THEN conjunct2,
     THEN conjunct2, THEN mp, OF ok]
  obtain res where res: "pfd_store_init ?e Other_arch fresh_state 4 = Some (Inr res)"
    and lt: "rounds res < 11 \<longrightarrow> \<not> round_fails ?e 4 (rounds res - 1)"
    and le: "rounds res \<le> 11"
    and m: "Warn_manual \<in> set (printed res) \<longleftrightarrow> round_fails ?e 4 (rounds res - 1)"
    and w: "length (filter is_recalculating (printed res))
          = (if round_fails ?e 4 0 \<and> round_fails ?e 4 1 then 1 else 0)"
    by blast
  from lt le f have "rounds res = 11" by (cases "rounds res < 11") auto
  moreover have "pfd_correction (state res) = 99"
    using threshold_result [of stuck_clock Other_arch fresh_state] res by auto
  ultimately show ?thesis using res m w f threshold_quality by auto
qed

section \<open>The median tier of the calibration\<close>

lemma median_tier:
  assumes res: "pfd_store_init e a old n = Some (Inr res)"
    and w: "Warn_median v \<in> set (printed res)"
  shows "(\<exists>r. v = Finite r \<and> 1 \<le> r) \<and> Warn_clamp_one \<notin> set (printed res)"
proof -
  from res have ok: "alloc_ok e"
    by (auto simp: pfd_store_init_def split: if_splits)
  obtain c where c: "retry e a n 10 0 0 [] = Some c"
    using retry_total by blast
  then have c0: "retry e a n (10 - int 0) (of_nat 0) 0 [] = Some c" by simp
  from retry_inv [OF _ c0] obtain ad pre x y where
    pre: "pre = (if 3 \<le> c_rounds c then [Warn_recalculating x y] else [])"
    and m: "if round_fails e n (c_rounds c - 1)
       then c_ad c = fst (manual_correction e a (c_vals c) ad pre) \<and>
            c_log c = snd (manual_correction e a (c_vals c) ad pre)
       else c_ad c = ad \<and> c_log c = pre"
    by auto
  obtain t where t: "snd (manual_correction e a (c_vals c) ad pre) = pre @ Warn_manual # t"
    "\<forall>m \<in> set t. \<not> is_recalculating m \<and> m \<noteq> Warn_clamp_one \<and> m \<noteq> Warn_manual"
    "\<forall>v. Warn_median v \<in> set t \<longrightarrow>
        avg (fst (manual_correction e a (c_vals c) ad pre)) = v \<and> (\<exists>r. v = Finite r \<and> 1 \<le> r)"
    using manual_correction_log by blast
  obtain corr s q where r: "pfd_store_init e a old n =
       Some (Inr \<lparr>state = \<lparr>pfd_correction = corr, pfd_store_0 = c_vals c\<rparr>,
                  printed = c_log c @ s @ [Set_correction corr q],
                  rounds = c_rounds c\<rparr>)"
    and s: "\<forall>m \<in> set s. \<not> is_recalculating m \<and> m \<noteq> Warn_manual \<and> (\<forall>v. m \<noteq> Warn_median v)"
    and cl: "Warn_clamp_one \<in> set s \<longrightarrow> (\<exists>r. avg (c_ad c) = Finite r \<and> 0 < r \<and> r < 1)"
    using pfd_store_init_result [OF ok c] by blast
  from res r have p: "printed res = c_log c @ s @ [Set_correction corr q]" by auto
  have npre: "Warn_median v \<notin> set pre" "Warn_clamp_one \<notin> set pre" by (simp_all add: pre)
  from w p s have wl: "Warn_median v \<in> set (c_log c)" by auto
  have f: "round_fails e n (c_rounds c - 1)"
  proof (rule ccontr)
    assume "\<not> round_fails e n (c_rounds c - 1)"
    with m have "c_log c = pre" by simp
    with wl npre show False by simp
  qed
  with m t have log: "c_log c = pre @ Warn_manual # t"
    and ad: "c_ad c = fst (manual_correction e a (c_vals c) ad pre)" by simp_all
  from wl log npre have "Warn_median v \<in> set t" by simp
  with t(3) ad have v: "avg (c_ad c) = v" "\<exists>r. v = Finite r \<and> 1 \<le> r" by auto
  then have "Warn_clamp_one \<notin> set s" using cl by auto
  moreover have "Warn_clamp_one \<notin> set (c_log c)" using log npre t(2) by auto
  ultimately have "Warn_clamp_one \<notin> set (printed res)" by (simp add: p)
  with v show ?thesis by simp
qed

lemma noisy_median_used:
  "\<exists>res. pfd_store_init (samples_env [0, 100, 0, 100] clk) a old 4 = Some (Inr res) \<and>
     Warn_median (Finite 100) \<in> set (printed res)"
proof -
  let ?e = "samples_env [0, 100, 0, 100] clk"
  obtain c where c: "retry ?e a 4 10 0 0 [] = Some c"
    using retry_total by blast
  then have c0: "retry ?e a 4 (10 - int 0) (of_nat 0) 0 [] = Some c" by simp
  from retry_inv [OF _ c0] obtain ad pre where
    l: "get_abs_deviation (round_samples ?e 4 (c_rounds c - 1)) = Some (c_vals c, ad)"
    and m: "if round_fails ?e 4 (c_rounds c - 1)
       then c_ad c = fst (manual_correction ?e a (c_vals c) ad pre) \<and>
            c_log c = snd (manual_correction ?e a (c_vals c) ad pre)
       else c_ad c = ad \<and> c_log c = pre"
    by auto
  have vals: "c_vals c = [0, 100, 0, 100]"
    using get_abs_deviation_vals [OF l] by (simp add: clipped_def PFD_VAL_UP_LIMIT_def)
  have med: "median_non_zero_ticks True [0, 100, 0, 100] = Finite 100"
    by (simp add: median_non_zero_ticks_def Let_def ticks_compare_def dbl_of_ticks_def)
  from m noisy_fails have "c_log c = snd (manual_correction ?e a (c_vals c) ad pre)" by simp
  then have "Warn_median (Finite 100) \<in> set (c_log c)"
    by (simp add: vals manual_correction_def Let_def med dbl_gt_def)
  moreover obtain corr s q where "pfd_store_init ?e a old 4 =
       Some (Inr \<lparr>state = \<lparr>pfd_correction = corr, pfd_store_0 = c_vals c\<rparr>,
                  printed = c_log c @ s @ [Set_correction corr q],
                  rounds = c_rounds c\<rparr>)"
    using pfd_store_init_result [OF _ c, of old] by auto
  ultimately show ?thesis by simp
qed

text \<open>
  Claim C10. \<open>median_non_zero_ticks\<close> returns NaN or a value of at least 1. So
  whenever a call of \<open>pfd_store_init\<close> reports that it uses the median, the average it
  installs is at least 1, and the call does not take the branch that clamps an average
  below 1.
\<close>

theorem median_tier_at_least_one:
  "(median_non_zero_ticks ok xs = NaN \<or>
      (\<exists>r. median_non_zero_ticks ok xs = Finite r \<and> 1 \<le> r)) \<and>
   (\<forall>res v. pfd_store_init e a old n = Some (Inr res) \<and> Warn_median v \<in> set (printed res) \<longrightarrow>
      (\<exists>r. v = Finite r \<and> 1 \<le> r) \<and> Warn_clamp_one \<notin> set (printed res))"
proof (rule conjI)
  show "median_non_zero_ticks ok xs = NaN \<or>
      (\<exists>r. median_non_zero_ticks ok xs = Finite r \<and> 1 \<le> r)"
    by (rule median_at_least_one)
next
  show "\<forall>res v. pfd_store_init e a old n = Some (Inr res) \<and> Warn_median v \<in> set (printed res) \<longrightarrow>
      (\<exists>r. v = Finite r \<and> 1 \<le> r) \<and> Warn_clamp_one \<notin> set (printed res)"
    using median_tier by blast
qed

theorem median_tier_at_least_one_witness:
  "\<exists>res. pfd_store_init (samples_env [0, 100, 0, 100] stuck_clock) Other_arch fresh_state 4
       = Some (Inr res) \<and>
     Warn_median (Finite 100) \<in> set (printed res) \<and> Warn_clamp_one \<notin> set (printed res) \<and>
     median_non_zero_ticks True [0, 100, 0, 100] = Finite 100"
proof -
  let ?e = "samples_env [0, 100, 0, 100] stuck_clock"
  obtain res where res: "pfd_store_init ?e Other_arch fresh_state 4 = Some (Inr res)"
    and w: "Warn_median (Finite 100) \<in> set (printed res)"
    using noisy_median_used by blast
  have "Warn_clamp_one \<notin> set (printed res)"
    using median_tier_at_least_one [of True "[]" ?e Other_arch fresh_state 4] res w by blast
  moreover have "median_non_zero_ticks True [0, 100, 0, 100] = Finite 100"
    by (simp add: median_non_zero_ticks_def Let_def ticks_compare_def dbl_of_ticks_def)
  ultimately show ?thesis using res w by blast
qed

section \<open>Calibration samples that are all zero\<close>

lemma first_round_accepted:
  assumes "get_abs_deviation (round_samples e n 0) = Some (vals, ad)"
    and "\<not> round_fails e n 0"
  shows "retry e a n 10 0 0 [] =
    Some \<lparr>c_vals = vals, c_ad = ad, c_std_pp = std_pp_of ad, c_log = [], c_rounds = 1\<rparr>"
  using assms(2) unfolding retry_unfold [OF assms(1)] by simp

lemma measure_loop_const:
  assumes "\<forall>p. clk (p + 1) - clk p = d" and "0 < d"
  shows "fst (measure_loop clk k pos d) = d"
  using assms by (induction k arbitrary: pos) (simp_all add: Let_def)

lemma measure_loop_first:
  assumes "\<forall>p. clk (p + 1) - clk p = d" and "0 < d" and "d \<le> best"
  shows "fst (measure_loop clk (Suc k) pos best) = d"
proof -
  have b: "(if 0 < d \<and> d < best then d else best) = d" using assms(2,3) by auto
  have "measure_loop clk (Suc k) pos best
      = measure_loop clk k (pos + 2) (if 0 < d \<and> d < best then d else best)"
    using assms(1) by (simp add: Let_def)
  then show ?thesis
    unfolding b by (simp only: measure_loop_const [OF assms(1,2)])
qed

lemma measure_loop_stuck:
  assumes "\<forall>p. clk (p + 1) = clk p"
  shows "fst (measure_loop clk k pos best) = best"
  using assms by (induction k arbitrary: pos) (simp_all add: Let_def)

lemma measure_ticking: "fst (measure_minimum_tick_delta ticking_clock 64 0) = 7"
proof -
  have d: "\<forall>p. ticking_clock (p + 1) - ticking_clock p = 7"
    by (simp add: ticking_clock_def)
  have n: "unat (64 :: 32 word) = Suc 63" by simp
  have "fst (measure_loop ticking_clock (Suc 63) 0 UINT64_MAX) = 7"
    by (rule measure_loop_first [OF d]) (simp_all add: UINT64_MAX_def)
  then show ?thesis
    by (simp add: measure_minimum_tick_delta_def Let_def n UINT64_MAX_def del: unat_numeral)
qed

lemma measure_striding:
  "fst (measure_minimum_tick_delta striding_clock 64 0) = 4503599627370497"
proof -
  have d: "\<forall>p. striding_clock (p + 1) - striding_clock p = 4503599627370497"
    by (simp add: striding_clock_def algebra_simps)
  have n: "unat (64 :: 32 word) = Suc 63" by simp
  have "fst (measure_loop striding_clock (Suc 63) 0 UINT64_MAX) = 4503599627370497"
    by (rule measure_loop_first [OF d]) (simp_all add: UINT64_MAX_def)
  then show ?thesis
    by (simp add: measure_minimum_tick_delta_def Let_def n UINT64_MAX_def del: unat_numeral)
qed

lemma measure_stuck:
  assumes "\<forall>p. clk (p + 1) = clk p"
  shows "fst (measure_minimum_tick_delta clk 64 pos) = 0"
  by (simp add: measure_minimum_tick_delta_def Let_def measure_loop_stuck [OF assms])

lemma measure_loop_min:
  "fst (measure_loop clk k pos best) \<le> best \<and>
   (fst (measure_loop clk k pos best) = best \<or>
      (\<exists>j < k. fst (measure_loop clk k pos best) = clk (pos + 2 * j + 1) - clk (pos + 2 * j)
         \<and> 0 < clk (pos + 2 * j + 1) - clk (pos + 2 * j))) \<and>
   (\<forall>j < k. 0 < clk (pos + 2 * j + 1) - clk (pos + 2 * j) \<longrightarrow>
      fst (measure_loop clk k pos best) \<le> clk (pos + 2 * j + 1) - clk (pos + 2 * j))"
proof (induction k arbitrary: pos best)
  case 0
  show ?case by simp
next
  case (Suc k)
  let ?d = "clk (pos + 1) - clk pos"
  let ?b = "if 0 < ?d \<and> ?d < best then ?d else best"
  let ?r = "fst (measure_loop clk k (pos + 2) ?b)"
  have step: "measure_loop clk (Suc k) pos best = measure_loop clk k (pos + 2) ?b"
    by (simp add: Let_def)
  have sh: "pos + 2 + 2 * j + 1 = pos + 2 * Suc j + 1" "pos + 2 + 2 * j = pos + 2 * Suc j" for j
    by simp_all
  note IH = Suc.IH [of "pos + 2" ?b, unfolded sh]
  from IH have le: "?r \<le> ?b" by blast
  from IH have ex: "?r = ?b \<or> (\<exists>j < k. ?r = clk (pos + 2 * Suc j + 1) - clk (pos + 2 * Suc j)
         \<and> 0 < clk (pos + 2 * Suc j + 1) - clk (pos + 2 * Suc j))" by blast
  from IH have mn: "\<forall>j < k. 0 < clk (pos + 2 * Suc j + 1) - clk (pos + 2 * Suc j) \<longrightarrow>
      ?r \<le> clk (pos + 2 * Suc j + 1) - clk (pos + 2 * Suc j)" by blast
  have b_le: "?b \<le> best" by auto
  have b_d: "0 < ?d \<Longrightarrow> ?b \<le> ?d" by auto
  have c1: "?r \<le> best" using le b_le by (rule order_trans)
  have c2: "?r = best \<or> (\<exists>j < Suc k. ?r = clk (pos + 2 * j + 1) - clk (pos + 2 * j)
         \<and> 0 < clk (pos + 2 * j + 1) - clk (pos + 2 * j))"
  proof (cases "?r = ?b")
    case True
    show ?thesis
    proof (cases "0 < ?d \<and> ?d < best")
      case True
      with \<open>?r = ?b\<close> have "?r = clk (pos + 2 * 0 + 1) - clk (pos + 2 * 0) \<and>
          0 < clk (pos + 2 * 0 + 1) - clk (pos + 2 * 0)" by simp
      then show ?thesis by blast
    next
      case False
      then have "?b = best" by (simp only: if_False)
      with \<open>?r = ?b\<close> have "?r = best" by (simp only:)
      then show ?thesis by blast
    qed
  next
    case False
    with ex obtain j where "j < k" "?r = clk (pos + 2 * Suc j + 1) - clk (pos + 2 * Suc j)"
      "0 < clk (pos + 2 * Suc j + 1) - clk (pos + 2 * Suc j)" by blast
    then have "Suc j < Suc k \<and> ?r = clk (pos + 2 * Suc j + 1) - clk (pos + 2 * Suc j) \<and>
      0 < clk (pos + 2 * Suc j + 1) - clk (pos + 2 * Suc j)" by simp
    then show ?thesis by blast
  qed
  have c3: "\<forall>j < Suc k. 0 < clk (pos + 2 * j + 1) - clk (pos + 2 * j) \<longrightarrow>
      ?r \<le> clk (pos + 2 * j + 1) - clk (pos + 2 * j)"
  proof (intro allI impI)
    fix j assume j: "j < Suc k" and p: "0 < clk (pos + 2 * j + 1) - clk (pos + 2 * j)"
    show "?r \<le> clk (pos + 2 * j + 1) - clk (pos + 2 * j)"
    proof (cases j)
      case 0
      with p have "0 < ?d" by simp
      then have "?b \<le> ?d" by (rule b_d)
      with le have "?r \<le> ?d" by (rule order_trans)
      with 0 show ?thesis by simp
    next
      case (Suc i)
      with j p mn show ?thesis by simp
    qed
  qed
  from c1 c2 c3 show ?case unfolding step by (intro conjI)
qed

lemma measure_minimum:
  "(fst (measure_minimum_tick_delta clk 64 pos) = 0 \<longleftrightarrow>
      (\<forall>j < 64. clk (pos + 2 * j + 1) - clk (pos + 2 * j) = 0 \<or>
                clk (pos + 2 * j + 1) - clk (pos + 2 * j) = UINT64_MAX)) \<and>
   (fst (measure_minimum_tick_delta clk 64 pos) \<noteq> 0 \<longrightarrow>
      (\<exists>j < 64. fst (measure_minimum_tick_delta clk 64 pos)
          = clk (pos + 2 * j + 1) - clk (pos + 2 * j)) \<and>
      (\<forall>j < 64. 0 < clk (pos + 2 * j + 1) - clk (pos + 2 * j) \<longrightarrow>
          fst (measure_minimum_tick_delta clk 64 pos) \<le> clk (pos + 2 * j + 1) - clk (pos + 2 * j)))"
proof -
  let ?r = "fst (measure_loop clk 64 pos UINT64_MAX)"
  let ?m = "fst (measure_minimum_tick_delta clk 64 pos)"
  let ?d = "\<lambda>j. clk (pos + 2 * j + 1) - clk (pos + 2 * j)"
  have m: "?m = (if ?r = UINT64_MAX then 0 else ?r)"
    by (simp add: measure_minimum_tick_delta_def Let_def)
  note L = measure_loop_min [of clk 64 pos UINT64_MAX]
  from L have ex: "?r = UINT64_MAX \<or> (\<exists>j < 64. ?r = ?d j \<and> 0 < ?d j)" by blast
  from L have mn: "\<forall>j < 64. 0 < ?d j \<longrightarrow> ?r \<le> ?d j" by blast
  have top: "x \<le> UINT64_MAX" for x :: ticks by (simp add: UINT64_MAX_def)
  have z: "?m = 0 \<longleftrightarrow> (\<forall>j < 64. ?d j = 0 \<or> ?d j = UINT64_MAX)"
  proof
    assume "?m = 0"
    have r: "?r = UINT64_MAX"
    proof (rule ccontr)
      assume n: "?r \<noteq> UINT64_MAX"
      with ex obtain j where "?r = ?d j" "0 < ?d j" by blast
      then have "?r \<noteq> 0" by (simp add: word_greater_zero_iff)
      with n m \<open>?m = 0\<close> show False by simp
    qed
    show "\<forall>j < 64. ?d j = 0 \<or> ?d j = UINT64_MAX"
    proof (intro allI impI)
      fix j :: nat assume j: "j < 64"
      show "?d j = 0 \<or> ?d j = UINT64_MAX"
      proof (cases "?d j = 0")
        case False
        then have "0 < ?d j" by (simp add: word_greater_zero_iff)
        with mn j have "?r \<le> ?d j" by blast
        with r have "UINT64_MAX \<le> ?d j" by simp
        with top [of "?d j"] have "?d j = UINT64_MAX" by simp
        then show ?thesis by blast
      qed blast
    qed
  next
    assume a: "\<forall>j < 64. ?d j = 0 \<or> ?d j = UINT64_MAX"
    have "?r = UINT64_MAX"
    proof (rule ccontr)
      assume n: "?r \<noteq> UINT64_MAX"
      with ex obtain j where j: "j < 64" "?r = ?d j" "0 < ?d j" by blast
      with a have "?d j = UINT64_MAX" by auto
      with j n show False by simp
    qed
    with m show "?m = 0" by simp
  qed
  have nz: "?m \<noteq> 0 \<longrightarrow> (\<exists>j < 64. ?m = ?d j) \<and> (\<forall>j < 64. 0 < ?d j \<longrightarrow> ?m \<le> ?d j)"
  proof
    assume "?m \<noteq> 0"
    with m have r: "?r \<noteq> UINT64_MAX" "?m = ?r" by (auto split: if_splits)
    with ex mn show "(\<exists>j < 64. ?m = ?d j) \<and> (\<forall>j < 64. 0 < ?d j \<longrightarrow> ?m \<le> ?d j)"
      by auto
  qed
  from z nz show ?thesis by (rule conjI)
qed

lemma zero_round:
  assumes "\<forall>i < unat n. round_delta e 0 i = 0"
  shows "round_samples e n 0 = replicate (unat n) 0"
  using assms by (intro nth_equalityI) (simp_all add: round_samples_def)

lemma clipped_0: "clipped 0 = 0"
  by (simp add: clipped_def)

lemma zero_deviation:
  assumes "0 < k" "k < 2 ^ 32"
  shows "\<exists>ad. get_abs_deviation (replicate k 0) = Some (replicate k 0, ad) \<and> avg ad = Finite 0"
proof -
  obtain vals ad where r: "get_abs_deviation (replicate k 0) = Some (vals, ad)"
    using get_abs_deviation_total [of "replicate k 0"] assms(2) by auto
  have v: "vals = replicate k 0"
    using get_abs_deviation_vals [OF r] by (simp add: clipped_0)
  have z: "sum_list (replicate k (0 :: ticks)) = 0" by (induction k) simp_all
  have "k \<le> 2 ^ 53" using assms(2) by simp
  then have n: "dbl_of_size k = Finite (real k)"
    by (simp only: dbl_of_size_def dbl_of_real_nat)
  have "avg ad = Finite 0"
    using get_abs_deviation_ad [OF r] assms(1)
    by (auto simp: clipped_0 z dbl_of_ticks_0 n)
  with r v show ?thesis by simp
qed

lemma floor_half: "\<lfloor>real k + 1 / 2\<rfloor> = int k"
  by (simp add: floor_eq_iff)

text \<open>Up to \<open>2 ^ 52\<close> the conversion of a counter value to double and back, with one half
  added in between, gives the value again. It is the largest such bound: the double
  nearest to \<open>2 ^ 52 + 1 + 0.5\<close> is \<open>2 ^ 52 + 2\<close>.\<close>

lemma r64_tie_2p52: "r64 (9007199254740993 / 2) = 4503599627370496"
proof -
  let ?x = "9007199254740993 / 2 :: real"
  have "ulp_exp ?x = 52 - 52" by (rule ulp_exp_eq) simp_all
  then have p: "ulp_exp ?x = 0" by simp
  have f: "\<lfloor>?x\<rfloor> = 4503599627370496" by simp
  have "rne ?x = 4503599627370496"
    by (simp add: rne_def Let_def f)
  then show ?thesis by (simp add: r64_def p)
qed

lemma r64_tie_odd: "r64 (9007199254740995 / 2) = 4503599627370498"
proof -
  let ?x = "9007199254740995 / 2 :: real"
  have "ulp_exp ?x = 52 - 52" by (rule ulp_exp_eq) simp_all
  then have p: "ulp_exp ?x = 0" by simp
  have f: "\<lfloor>?x\<rfloor> = 4503599627370497" by simp
  have "rne ?x = 4503599627370498"
    by (simp add: rne_def Let_def f)
  then show ?thesis by (simp add: r64_def p)
qed

lemma add_half_exact:
  assumes "k \<le> 2 ^ 52"
  shows "dbl_add (Finite (real k)) (Finite (1 / 2)) = Finite (r64 (real k + 1 / 2))"
    and "\<lfloor>r64 (real k + 1 / 2)\<rfloor> = int k"
proof -
  have "real k \<le> real (2 ^ 52)" using assms by (simp only: of_nat_le_iff)
  then have le: "real k \<le> 2 ^ 52" by simp
  have "(2::real) ^ 52 + 1 / 2 \<le> 2 ^ 1023" by simp
  with le have "\<bar>real k + 1 / 2\<bar> \<le> 2 ^ 1023" by simp
  then show "dbl_add (Finite (real k)) (Finite (1 / 2)) = Finite (r64 (real k + 1 / 2))"
    by (simp only: dbl_add.simps dbl_of_real_finite)
  show "\<lfloor>r64 (real k + 1 / 2)\<rfloor> = int k"
  proof (cases "k = 2 ^ 52")
    case True
    then have k: "real k = 4503599627370496" by simp
    then have "real k + 1 / 2 = 9007199254740993 / 2" by simp
    then have "r64 (real k + 1 / 2) = real k" by (simp only: r64_tie_2p52 k)
    then show ?thesis by simp
  next
    case False
    with assms have "k < 2 ^ 52" by simp
    then have "2 * k + 1 \<le> 2 ^ 53" by simp
    then have "int (2 * k + 1) \<le> int (2 ^ 53)" by (rule of_nat_mono)
    then have i: "\<bar>int (2 * k + 1)\<bar> \<le> 2 ^ 53" by simp
    have e: "real k + 1 / 2 = real_of_int (int (2 * k + 1)) / 2 ^ 1" by simp
    have "r64 (real k + 1 / 2) = real k + 1 / 2"
      unfolding e by (rule r64_dyadic [OF i]) simp
    then show ?thesis by (simp add: floor_half)
  qed
qed

lemma round_correction_exact:
  assumes "m \<noteq> 0" "unat m \<le> 2 ^ 52"
  shows "round_correction (dbl_of_ticks m) out = Inr (m, dbl_of_ticks m, out)"
proof -
  have "unat m \<le> 2 ^ 53" using assms(2) by simp
  then have d: "dbl_of_ticks m = Finite (real (unat m))" by (rule dbl_of_ticks_exact)
  have "real (unat m) \<le> real (2 ^ 52)" using assms(2) by (simp only: of_nat_le_iff)
  then have "real (unat m) < 2 ^ 64" by simp
  then have nge: "\<not> dbl_ge (Finite (real (unat m))) (dbl_of_ticks UINT64_MAX)"
    by (simp only: dbl_of_ticks_UINT64_MAX dbl_ge_def dbl_le.simps not_le)
  note h = add_half_exact [OF assms(2)]
  have "0 \<le> real (unat m)" by (rule of_nat_0_le_iff)
  then have "0 \<le> real (unat m) + 1 / 2" by linarith
  then have "r64 0 \<le> r64 (real (unat m) + 1 / 2)" by (rule r64_mono)
  then have nn: "0 \<le> r64 (real (unat m) + 1 / 2)" by simp
  then have lo: "- 1 < r64 (real (unat m) + 1 / 2)" by simp
  have "real (unat m) + 1 / 2 \<le> 2 ^ 53" using \<open>real (unat m) \<le> real (2 ^ 52)\<close> by simp
  then have "r64 (real (unat m) + 1 / 2) \<le> r64 (2 ^ 53)" by (rule r64_mono)
  moreover have "r64 (2 ^ 53) = 2 ^ 53" using r64_scaled [of 1 53] by simp
  ultimately have hi: "r64 (real (unat m) + 1 / 2) < 2 ^ 64" by simp
  have w: "(of_nat (unat m) :: ticks) = m" by simp
  have t: "ticks_of_dbl (dbl_add (Finite (real (unat m))) (Finite (1 / 2))) = Some m"
    unfolding h(1) using lo hi nn by (simp add: h(2) w del: of_nat_unat)
  show ?thesis
    unfolding round_correction_def d
    using nge t assms(1) by (simp del: of_nat_unat)
qed

text \<open>The conversion of a counter value above 0, whatever its size.\<close>

lemma round_correction_ticks:
  assumes "m \<noteq> 0"
  shows "r64 (real (unat m)) < 2 ^ 64 \<Longrightarrow>
      round_correction (dbl_of_ticks m) out
        = Inr (word_of_int \<lfloor>r64 (r64 (real (unat m)) + 1 / 2)\<rfloor>, dbl_of_ticks m, out) \<and>
      (word_of_int \<lfloor>r64 (r64 (real (unat m)) + 1 / 2)\<rfloor> :: ticks) \<noteq> 0"
    and "2 ^ 64 \<le> r64 (real (unat m)) \<Longrightarrow>
      round_correction (dbl_of_ticks m) out
        = Inr (UINT64_MAX, dbl_of_ticks UINT64_MAX, out @ [Warn_clamp_max])"
proof -
  let ?r = "r64 (real (unat m))"
  have d: "dbl_of_ticks m = Finite ?r" by (rule dbl_of_ticks_finite(1))
  {
    assume "2 ^ 64 \<le> ?r"
    then show "round_correction (dbl_of_ticks m) out
        = Inr (UINT64_MAX, dbl_of_ticks UINT64_MAX, out @ [Warn_clamp_max])"
      unfolding round_correction_def d
      by (simp add: dbl_of_ticks_UINT64_MAX dbl_ge_def del: of_nat_unat)
  }
  assume lt: "?r < 2 ^ 64"
  have one: "1 \<le> ?r" by (rule dbl_of_ticks_ge_one [OF assms])
  note b = add_half_in_range [OF one r64_idem lt]
  let ?k = "\<lfloor>r64 (?r + 1 / 2)\<rfloor>"
  have k: "1 \<le> ?k" "?k < 2 ^ 64"
    using b by (simp_all add: le_floor_iff floor_less_iff)
  have nz: "(word_of_int ?k :: ticks) \<noteq> 0"
  proof
    assume "(word_of_int ?k :: ticks) = 0"
    then have "2 ^ LENGTH(64) dvd ?k" by (simp only: word_of_int_eq_0_iff)
    then have "(2 ^ 64 :: int) dvd ?k" by simp
    then have "2 ^ 64 \<le> ?k" using k(1) by (intro zdvd_imp_le) simp_all
    with k(2) show False by simp
  qed
  have "(2::real) ^ 64 + 1 / 2 \<le> 2 ^ 1023" by simp
  with one lt have "\<bar>?r + 1 / 2\<bar> \<le> 2 ^ 1023" by linarith
  then have s: "dbl_add (Finite ?r) (Finite (1 / 2)) = Finite (r64 (?r + 1 / 2))"
    by (simp only: dbl_add.simps dbl_of_real_finite)
  have nge: "\<not> dbl_ge (Finite ?r) (dbl_of_ticks UINT64_MAX)"
    using lt by (simp only: dbl_of_ticks_UINT64_MAX dbl_ge_def dbl_le.simps not_le)
  have t: "ticks_of_dbl (Finite (r64 (?r + 1 / 2))) = Some (word_of_int ?k)"
    using b by (simp del: of_nat_unat)
  have "round_correction (dbl_of_ticks m) out = Inr (word_of_int ?k, dbl_of_ticks m, out)"
    unfolding round_correction_def d s t using nge nz by (simp del: of_nat_unat)
  then show "round_correction (dbl_of_ticks m) out
        = Inr (word_of_int ?k, dbl_of_ticks m, out) \<and> (word_of_int ?k :: ticks) \<noteq> 0"
    using nz by (rule conjI)
qed

lemma round_correction_default:
  "round_correction PFD_CONSERVATIVE_DEFAULT out = Inr (32, PFD_CONSERVATIVE_DEFAULT, out)"
  by (simp add: round_correction_def PFD_CONSERVATIVE_DEFAULT_def dbl_of_ticks_UINT64_MAX dbl_ge_def)

lemma zero_samples_quality:
  assumes "0 < unat n" "\<forall>i < unat n. round_delta e 0 i = 0"
  shows "round_quality e n 0 = NaN \<and> \<not> round_fails e n 0 \<and>
    (\<exists>ad. get_abs_deviation (round_samples e n 0) = Some (replicate (unat n) 0, ad) \<and>
          avg ad = Finite 0 \<and> std_pp_of ad = NaN)"
proof -
  have b: "unat n < 2 ^ 32" using unsigned_less [of n, where ?'a = nat] by simp
  obtain ad where r: "get_abs_deviation (round_samples e n 0) = Some (replicate (unat n) 0, ad)"
    and a: "avg ad = Finite 0"
    using zero_deviation [OF assms(1) b] zero_round [OF assms(2)] by auto
  have q: "std_pp_of ad = NaN" using a by (simp add: std_pp_of_def)
  then have "round_quality e n 0 = NaN" by (simp add: round_quality_def r)
  then show ?thesis
    using r a q by (simp add: round_fails_def dbl_gt_def PFD_CORRECTION_CONF_def)
qed

lemma zero_samples_result:
  assumes "alloc_ok e" "0 < unat n" "\<forall>i < unat n. round_delta e 0 i = 0"
  shows "\<exists>c w. pfd_store_init e a old n =
      Some (Inr \<lparr>state = \<lparr>pfd_correction = c, pfd_store_0 = replicate (unat n) 0\<rparr>,
                 printed = w @ [Warn_le_zero_default, Set_correction c (Finite 0)],
                 rounds = 1\<rparr>) \<and>
    (first_delta e = 0 \<longrightarrow> c = 32 \<and> w = [Warn_le_zero_default]) \<and>
    (first_delta e \<noteq> 0 \<and> unat (first_delta e) \<le> 2 ^ 52 \<longrightarrow>
       c = first_delta e \<and> w = [Warn_direct_delta (first_delta e)]) \<and>
    (first_delta e \<noteq> 0 \<and> r64 (real (unat (first_delta e))) < 2 ^ 64 \<longrightarrow>
       c = word_of_int \<lfloor>r64 (r64 (real (unat (first_delta e))) + 1 / 2)\<rfloor> \<and>
       w = [Warn_direct_delta (first_delta e)]) \<and>
    (2 ^ 64 \<le> r64 (real (unat (first_delta e))) \<longrightarrow>
       c = UINT64_MAX \<and> w = [Warn_direct_delta (first_delta e), Warn_clamp_max])"
proof -
  define m where "m = first_delta e"
  have m: "fst (measure_minimum_tick_delta (clock e) 64 0) = m"
    by (simp add: m_def first_delta_def)
  obtain ad where r: "get_abs_deviation (round_samples e n 0) = Some (replicate (unat n) 0, ad)"
    and a: "avg ad = Finite 0" and q: "std_pp_of ad = NaN"
    and nf: "\<not> round_fails e n 0"
    using zero_samples_quality [OF assms(2,3)] by blast
  note c = first_round_accepted [OF r nf, of a]
  let ?r = "r64 (real (unat m))"
  let ?k = "word_of_int \<lfloor>r64 (?r + 1 / 2)\<rfloor> :: ticks"
  show ?thesis
  proof (cases "m = 0")
    case True
    have s: "sanitize_avg e (Finite 0) 0 [] =
        \<lparr>f_corrected_avg = PFD_CONSERVATIVE_DEFAULT,
         f_pos = snd (measure_minimum_tick_delta (clock e) 64 0),
         f_log = [Warn_le_zero_default]\<rparr>"
      using True by (simp add: sanitize_avg_def Let_def m)
    have nz: "(32 :: ticks) \<noteq> 0" by simp
    have "pfd_store_init e a old n =
      Some (Inr \<lparr>state = \<lparr>pfd_correction = 32, pfd_store_0 = replicate (unat n) 0\<rparr>,
                 printed = [Warn_le_zero_default] @ [Warn_le_zero_default, Set_correction 32 (Finite 0)],
                 rounds = 1\<rparr>)"
      using assms(1)
      unfolding pfd_store_init_def Let_def c option.case
      by (simp add: a q s round_correction_default enforce_positive_nonzero [OF nz])
    moreover have "\<not> 2 ^ 64 \<le> ?r" using True by simp
    ultimately show ?thesis
      unfolding m_def [symmetric] using True by blast
  next
    case False
    then have pos: "m > 0" by (simp add: word_greater_zero_iff)
    have s: "sanitize_avg e (Finite 0) 0 [] =
        \<lparr>f_corrected_avg = dbl_of_ticks m,
         f_pos = snd (measure_minimum_tick_delta (clock e) 64 0),
         f_log = [Warn_direct_delta m]\<rparr>"
      using pos by (simp add: sanitize_avg_def Let_def m)
    have small: "?r < 2 ^ 64 \<and> ?k = m" if "unat m \<le> 2 ^ 52"
    proof -
      have "unat m \<le> 2 ^ 53" using that by simp
      then have e: "?r = real (unat m)" by (rule r64_of_nat)
      have "real (unat m) \<le> real (2 ^ 52)" using that by (simp only: of_nat_le_iff)
      then have "real (unat m) < 2 ^ 64" by simp
      moreover have "?k = m"
        unfolding e add_half_exact(2) [OF that] by simp
      ultimately show ?thesis unfolding e by (rule conjI)
    qed
    show ?thesis
    proof (cases "2 ^ 64 \<le> ?r")
      case True
      note rc = round_correction_ticks(2) [OF False True]
      have "pfd_store_init e a old n =
        Some (Inr \<lparr>state = \<lparr>pfd_correction = UINT64_MAX, pfd_store_0 = replicate (unat n) 0\<rparr>,
                   printed = [Warn_direct_delta m, Warn_clamp_max]
                       @ [Warn_le_zero_default, Set_correction UINT64_MAX (Finite 0)],
                   rounds = 1\<rparr>)"
        using assms(1) UINT64_MAX_nonzero
        unfolding pfd_store_init_def Let_def c option.case
        by (simp add: a q s rc enforce_positive_nonzero [OF UINT64_MAX_nonzero]
            word_greater_zero_iff)
      moreover have "\<not> unat m \<le> 2 ^ 52" using small True by auto
      ultimately show ?thesis
        unfolding m_def [symmetric] using True False by auto
    next
      case False
      then have lt: "?r < 2 ^ 64" by simp
      note rc = round_correction_ticks(1) [OF \<open>m \<noteq> 0\<close> lt]
      from rc have knz: "?k \<noteq> 0" by blast
      have "pfd_store_init e a old n =
        Some (Inr \<lparr>state = \<lparr>pfd_correction = ?k, pfd_store_0 = replicate (unat n) 0\<rparr>,
                   printed = [Warn_direct_delta m]
                       @ [Warn_le_zero_default, Set_correction ?k (Finite 0)],
                   rounds = 1\<rparr>)"
        using assms(1) knz
        unfolding pfd_store_init_def Let_def c option.case
        by (simp add: a q s rc [THEN conjunct1] enforce_positive_nonzero [OF knz]
            word_greater_zero_iff del: of_nat_unat)
      then show ?thesis
        unfolding m_def [symmetric] using False \<open>m \<noteq> 0\<close> small by auto
    qed
  qed
qed

lemma zero_env_samples:
  "\<forall>i < unat (4 :: 32 word). round_delta (samples_env [0, 0, 0, 0] clk) 0 i = 0"
proof (intro allI impI)
  fix i assume "i < unat (4 :: 32 word)"
  then have "i < 4" by simp
  then have "i = 0 \<or> i = 1 \<or> i = 2 \<or> i = 3" by arith
  then show "round_delta (samples_env [0, 0, 0, 0] clk) 0 i = 0"
    by (auto simp: samples_env_def)
qed

lemma replicate_four: "replicate (unat (4 :: 32 word)) (0 :: ticks) = [0, 0, 0, 0]"
proof -
  have "unat (4 :: 32 word) = Suc (Suc (Suc (Suc 0)))" by simp
  then show ?thesis by (simp only: replicate.simps)
qed

lemma zero_env_ticking:
  "pfd_store_init (samples_env [0, 0, 0, 0] ticking_clock) a old 4 =
    Some (Inr \<lparr>state = \<lparr>pfd_correction = 7, pfd_store_0 = [0, 0, 0, 0]\<rparr>,
               printed = [Warn_direct_delta 7, Warn_le_zero_default, Set_correction 7 (Finite 0)],
               rounds = 1\<rparr>)"
proof -
  let ?e = "samples_env [0, 0, 0, 0] ticking_clock"
  have r: "replicate (unat (4 :: 32 word)) (0 :: ticks) = [0, 0, 0, 0]"
    by (rule replicate_four)
  have m: "first_delta ?e = 7" by (simp add: first_delta_def measure_ticking)
  have "first_delta ?e \<noteq> 0 \<and> unat (first_delta ?e) \<le> 2 ^ 52" unfolding m by simp
  with zero_samples_result [OF _ _ zero_env_samples, of ticking_clock a old, unfolded r]
  show ?thesis unfolding m by auto
qed

text \<open>
  Claim C2, as the code has it. When every sample of the first measurement round is 0
  (for a capacity above 0), the average is 0 and the quality is NaN. A NaN does not
  exceed the threshold, so the round is accepted: there is no retry, and the median and
  the hardware constants are not consulted. The average 0 is then replaced by the result
  of the direct measurement: the smallest positive difference among 64 pairs of
  readings of the counter (a difference of \<open>UINT64_MAX\<close> is never taken), and 0 when
  there is none, as when the counter stands still. The result 0 gives the conservative
  constant 32. A result above 0 is converted to double, one half is added, and the sum
  is cut off to the correction: up to \<open>2 ^ 52\<close> that is the result itself; above, the
  result is rounded to 53 bits on the way, and a result that rounds to \<open>2 ^ 64\<close> gives
  \<open>UINT64_MAX\<close> with one more warning.
\<close>

theorem all_zero_samples:
  "alloc_ok e \<and> 0 < unat n \<and> (\<forall>i < unat n. round_delta e 0 i = 0) \<longrightarrow>
     round_quality e n 0 = NaN \<and> \<not> round_fails e n 0 \<and>
     (\<exists>ad. get_abs_deviation (round_samples e n 0) = Some (replicate (unat n) 0, ad) \<and>
           avg ad = Finite 0) \<and>
     (\<exists>c w. pfd_store_init e a old n =
         Some (Inr \<lparr>state = \<lparr>pfd_correction = c, pfd_store_0 = replicate (unat n) 0\<rparr>,
                    printed = w @ [Warn_le_zero_default, Set_correction c (Finite 0)],
                    rounds = 1\<rparr>) \<and>
       (first_delta e = 0 \<longrightarrow> c = 32 \<and> w = [Warn_le_zero_default]) \<and>
       (first_delta e \<noteq> 0 \<and> unat (first_delta e) \<le> 2 ^ 52 \<longrightarrow>
          c = first_delta e \<and> w = [Warn_direct_delta (first_delta e)]) \<and>
       (first_delta e \<noteq> 0 \<and> r64 (real (unat (first_delta e))) < 2 ^ 64 \<longrightarrow>
          c = word_of_int \<lfloor>r64 (r64 (real (unat (first_delta e))) + 1 / 2)\<rfloor> \<and>
          w = [Warn_direct_delta (first_delta e)]) \<and>
       (2 ^ 64 \<le> r64 (real (unat (first_delta e))) \<longrightarrow>
          c = UINT64_MAX \<and> w = [Warn_direct_delta (first_delta e), Warn_clamp_max])) \<and>
     (first_delta e = 0 \<longleftrightarrow>
        (\<forall>j < 64. clock e (2 * j + 1) - clock e (2 * j) = 0 \<or>
                  clock e (2 * j + 1) - clock e (2 * j) = UINT64_MAX)) \<and>
     (first_delta e \<noteq> 0 \<longrightarrow>
        (\<exists>j < 64. first_delta e = clock e (2 * j + 1) - clock e (2 * j)) \<and>
        (\<forall>j < 64. 0 < clock e (2 * j + 1) - clock e (2 * j) \<longrightarrow>
            first_delta e \<le> clock e (2 * j + 1) - clock e (2 * j)))"
proof (intro impI)
  assume h: "alloc_ok e \<and> 0 < unat n \<and> (\<forall>i < unat n. round_delta e 0 i = 0)"
  then have ok: "alloc_ok e" and n: "0 < unat n" and z: "\<forall>i < unat n. round_delta e 0 i = 0"
    by simp_all
  from zero_samples_quality [OF n z]
  have q: "round_quality e n 0 = NaN" "\<not> round_fails e n 0"
    "\<exists>ad. get_abs_deviation (round_samples e n 0) = Some (replicate (unat n) 0, ad) \<and>
           avg ad = Finite 0"
    by blast+
  have sh: "0 + 2 * j + 1 = 2 * j + 1" "0 + 2 * j = 2 * j" for j :: nat by simp_all
  note M = measure_minimum [of "clock e" 0, unfolded sh first_delta_def [symmetric]]
  from q zero_samples_result [OF ok n z, of a old] M
  show "round_quality e n 0 = NaN \<and> \<not> round_fails e n 0 \<and>
     (\<exists>ad. get_abs_deviation (round_samples e n 0) = Some (replicate (unat n) 0, ad) \<and>
           avg ad = Finite 0) \<and>
     (\<exists>c w. pfd_store_init e a old n =
         Some (Inr \<lparr>state = \<lparr>pfd_correction = c, pfd_store_0 = replicate (unat n) 0\<rparr>,
                    printed = w @ [Warn_le_zero_default, Set_correction c (Finite 0)],
                    rounds = 1\<rparr>) \<and>
       (first_delta e = 0 \<longrightarrow> c = 32 \<and> w = [Warn_le_zero_default]) \<and>
       (first_delta e \<noteq> 0 \<and> unat (first_delta e) \<le> 2 ^ 52 \<longrightarrow>
          c = first_delta e \<and> w = [Warn_direct_delta (first_delta e)]) \<and>
       (first_delta e \<noteq> 0 \<and> r64 (real (unat (first_delta e))) < 2 ^ 64 \<longrightarrow>
          c = word_of_int \<lfloor>r64 (r64 (real (unat (first_delta e))) + 1 / 2)\<rfloor> \<and>
          w = [Warn_direct_delta (first_delta e)]) \<and>
       (2 ^ 64 \<le> r64 (real (unat (first_delta e))) \<longrightarrow>
          c = UINT64_MAX \<and> w = [Warn_direct_delta (first_delta e), Warn_clamp_max])) \<and>
     (first_delta e = 0 \<longleftrightarrow>
        (\<forall>j < 64. clock e (2 * j + 1) - clock e (2 * j) = 0 \<or>
                  clock e (2 * j + 1) - clock e (2 * j) = UINT64_MAX)) \<and>
     (first_delta e \<noteq> 0 \<longrightarrow>
        (\<exists>j < 64. first_delta e = clock e (2 * j + 1) - clock e (2 * j)) \<and>
        (\<forall>j < 64. 0 < clock e (2 * j + 1) - clock e (2 * j) \<longrightarrow>
            first_delta e \<le> clock e (2 * j + 1) - clock e (2 * j)))"
    by (intro conjI) (blast+)
qed

theorem all_zero_samples_witness:
  "pfd_store_init (samples_env [0, 0, 0, 0] stuck_clock) Other_arch fresh_state 4 =
     Some (Inr \<lparr>state = \<lparr>pfd_correction = 32, pfd_store_0 = [0, 0, 0, 0]\<rparr>,
                printed = [Warn_le_zero_default, Warn_le_zero_default,
                           Set_correction 32 (Finite 0)],
                rounds = 1\<rparr>) \<and>
   first_delta (samples_env [0, 0, 0, 0] stuck_clock) = 0 \<and>
   first_delta (samples_env [0, 0, 0, 0] striding_clock) = 4503599627370497 \<and>
   map_option (map_sum id (pfd_correction \<circ> state))
     (pfd_store_init (samples_env [0, 0, 0, 0] striding_clock) Other_arch fresh_state 4)
     = Some (Inr 4503599627370498)"
proof -
  let ?e = "samples_env [0, 0, 0, 0] stuck_clock"
  let ?f = "samples_env [0, 0, 0, 0] striding_clock"
  have st: "\<forall>p. stuck_clock (p + 1) = stuck_clock p" by (simp add: stuck_clock_def)
  have m: "first_delta ?e = 0"
    using measure_stuck [OF st] by (simp add: first_delta_def)
  have h: "alloc_ok ?e \<and> 0 < unat (4 :: 32 word) \<and>
      (\<forall>i < unat (4 :: 32 word). round_delta ?e 0 i = 0)"
    using zero_env_samples [of stuck_clock] by simp
  have r: "replicate (unat (4 :: 32 word)) (0 :: ticks) = [0, 0, 0, 0]"
    by (rule replicate_four)
  from all_zero_samples [of ?e 4 Other_arch fresh_state, THEN mp, OF h, unfolded r] m
  have a: "pfd_store_init ?e Other_arch fresh_state 4 =
     Some (Inr \<lparr>state = \<lparr>pfd_correction = 32, pfd_store_0 = [0, 0, 0, 0]\<rparr>,
                printed = [Warn_le_zero_default, Warn_le_zero_default,
                           Set_correction 32 (Finite 0)],
                rounds = 1\<rparr>)"
    by auto
  have n: "first_delta ?f = 4503599627370497" by (simp add: first_delta_def measure_striding)
  have hf: "alloc_ok ?f \<and> 0 < unat (4 :: 32 word) \<and>
      (\<forall>i < unat (4 :: 32 word). round_delta ?f 0 i = 0)"
    using zero_env_samples [of striding_clock] by simp
  have u: "real (unat (4503599627370497 :: ticks)) = 4503599627370497" by simp
  have k: "r64 (r64 (real (unat (4503599627370497 :: ticks))) + 1 / 2) = 4503599627370498"
    unfolding u using r64_tie_odd by simp
  have lt: "first_delta ?f \<noteq> 0 \<and> r64 (real (unat (first_delta ?f))) < 2 ^ 64"
    unfolding n u by simp
  from all_zero_samples [of ?f 4 Other_arch fresh_state, THEN mp, OF hf, unfolded r] lt
  have b: "map_option (map_sum id (pfd_correction \<circ> state))
     (pfd_store_init ?f Other_arch fresh_state 4) = Some (Inr 4503599627370498)"
    unfolding n k by auto
  from a m n b show ?thesis by (intro conjI)
qed

text \<open>
  The claim as the specification states it fails when the counter advances by 7 between
  two readings: one round is run, and the correction is 7, not 32.
\<close>

theorem all_zero_samples_counterexample:
  "map_option (map_sum id (pfd_correction \<circ> state))
     (pfd_store_init (samples_env [0, 0, 0, 0] ticking_clock) Other_arch fresh_state 4)
     = Some (Inr 7) \<and>
   map_option (map_sum id rounds)
     (pfd_store_init (samples_env [0, 0, 0, 0] ticking_clock) Other_arch fresh_state 4)
     = Some (Inr 1) \<and>
   map_option (map_sum id printed)
     (pfd_store_init (samples_env [0, 0, 0, 0] ticking_clock) Other_arch fresh_state 4)
     = Some (Inr [Warn_direct_delta 7, Warn_le_zero_default, Set_correction 7 (Finite 0)])"
  by (simp add: zero_env_ticking)

section \<open>A steady round of samples\<close>

text \<open>
  The samples 20 (eight times), 21 and 19: the sum of the squared deviations is 2, and
  the operations on doubles give, each rounded, the standard deviation
  \<open>8056283928194521 / 2 ^ 54\<close> (the double nearest to the square root of the double
  nearest to 1/5) and the quality \<open>5035177455121550 / 2 ^ 51\<close>.
\<close>

lemma r64_fifth: "r64 (1 / 5) = 7205759403792794 / 2 ^ 55"
  using r64_eval [of "- 3" "1 / 5" 7205759403792794]
  by (simp add: power_int_minus)

lemma sqrt_fifth_bounds:
  "16112567856389041 / 2 ^ 55 < sqrt (7205759403792794 / 2 ^ 55)"
  "sqrt (7205759403792794 / 2 ^ 55) < 16112567856389043 / 2 ^ 55"
proof -
  show "16112567856389041 / 2 ^ 55 < sqrt (7205759403792794 / 2 ^ 55)"
    by (rule real_less_rsqrt) (simp add: power2_eq_square)
  show "sqrt (7205759403792794 / 2 ^ 55) < 16112567856389043 / 2 ^ 55"
    by (rule real_less_lsqrt) (simp_all add: power2_eq_square)
qed

lemma r64_sqrt_fifth: "r64 (sqrt (7205759403792794 / 2 ^ 55)) = 8056283928194521 / 2 ^ 54"
proof -
  let ?s = "sqrt (7205759403792794 / 2 ^ 55)"
  have p: "0 \<le> ?s" by simp
  have b: "16112567856389041 / 2 ^ 55 < ?s" "?s < 16112567856389043 / 2 ^ 55"
    by (rule sqrt_fifth_bounds)+
  have "r64 ?s = real_of_int 8056283928194521 * 2 powi (- 2 - 52)"
  proof (rule r64_eval)
    show "- 1022 \<le> (- 2 :: int)" by simp
    show "2 powi (- 2) \<le> \<bar>?s\<bar>" using b(1) p by (simp add: power_int_minus)
    show "\<bar>?s\<bar> < 2 powi (- 2 + 1)" using b(2) p by (simp add: power_int_minus)
    show "real_of_int 8056283928194521 - 1 / 2 < ?s / 2 powi (- 2 - 52)"
      using b(1) by (simp add: power_int_minus)
    show "?s / 2 powi (- 2 - 52) < real_of_int 8056283928194521 + 1 / 2"
      using b(2) by (simp add: power_int_minus)
  qed
  then show ?thesis by (simp add: power_int_minus)
qed

lemma r64_steady_diff:
  "r64 (352231686261445159 / 2 ^ 54) = 5503620097835081 / 2 ^ 48"
  using r64_eval [of 4 "352231686261445159 / 2 ^ 54" 5503620097835081]
  by (simp add: power_int_minus)

lemma r64_steady_quot:
  "r64 (5503620097835081 / 2 ^ 48 / 20) = 8805792156536130 / 2 ^ 53"
  using r64_eval [of "- 1" "5503620097835081 / 2 ^ 48 / 20" 8805792156536130]
  by (simp add: power_int_minus)

lemma steady_std_dev:
  "dbl_sqrt (dbl_div (Finite 2) (dbl_of_size 10)) = Finite (8056283928194521 / 2 ^ 54)"
proof -
  have "dbl_of_real (1 / 5) = Finite (r64 (1 / 5))"
    by (rule dbl_of_real_finite) simp
  then have a: "dbl_div (Finite 2) (dbl_of_size 10) = Finite (7205759403792794 / 2 ^ 55)"
    by (simp add: dbl_of_size_def r64_fifth)
  let ?s = "sqrt (7205759403792794 / 2 ^ 55)"
  have "0 \<le> ?s" by simp
  moreover have "?s < 1" using sqrt_fifth_bounds(2) by simp
  moreover have "(1::real) \<le> 2 ^ 1023" by simp
  ultimately have "\<bar>?s\<bar> \<le> 2 ^ 1023" by linarith
  then have f: "dbl_of_real ?s = Finite (r64 ?s)" by (rule dbl_of_real_finite)
  have n: "\<not> (7205759403792794 / 2 ^ 55 :: real) < 0" by simp
  have b: "dbl_sqrt (Finite (7205759403792794 / 2 ^ 55)) = Finite (8056283928194521 / 2 ^ 54)"
    using n by (simp only: dbl_sqrt.simps if_False f r64_sqrt_fifth)
  show ?thesis by (simp only: a b)
qed

lemma steady_formula:
  "dbl_mul (Finite 100)
     (dbl_sub (Finite 1)
        (dbl_div (dbl_sub (Finite 20) (Finite (8056283928194521 / 2 ^ 54))) (Finite 20)))
     = Finite (5035177455121550 / 2 ^ 51)"
proof -
  have e: "20 + - (8056283928194521 / 2 ^ 54) = (352231686261445159 / 2 ^ 54 :: real)" by simp
  have f1: "dbl_of_real (352231686261445159 / 2 ^ 54) = Finite (r64 (352231686261445159 / 2 ^ 54))"
    by (rule dbl_of_real_finite) simp
  have q1: "dbl_sub (Finite 20) (Finite (8056283928194521 / 2 ^ 54))
      = Finite (5503620097835081 / 2 ^ 48)"
    by (simp only: dbl_sub_def dbl_neg.simps dbl_add.simps e f1 r64_steady_diff)
  have f2: "dbl_of_real (5503620097835081 / 2 ^ 48 / 20)
      = Finite (r64 (5503620097835081 / 2 ^ 48 / 20))"
    by (rule dbl_of_real_finite) simp
  have n: "(20::real) \<noteq> 0" by simp
  have q2: "dbl_div (Finite (5503620097835081 / 2 ^ 48)) (Finite 20)
      = Finite (8805792156536130 / 2 ^ 53)"
    using n by (simp only: dbl_div.simps if_False f2 r64_steady_quot)
  have q3: "dbl_sub (Finite 1) (Finite (8805792156536130 / 2 ^ 53))
      = Finite (201407098204862 / 2 ^ 53)"
    using dbl_of_real_dyadic [of 201407098204862 53] by (simp add: dbl_sub_def)
  have q4: "dbl_mul (Finite 100) (Finite (201407098204862 / 2 ^ 53))
      = Finite (5035177455121550 / 2 ^ 51)"
    using dbl_of_real_dyadic [of 5035177455121550 51] by simp
  show ?thesis by (simp only: q1 q2 q3 q4)
qed

lemma steady_sum_stdev:
  "l_sum_stdev (band_locals [20, 20, 20, 20, 20, 20, 20, 20, 21, 19] (Finite 20) 10) = Finite 2"
  by (simp add: eval_simps)

lemma steady_deviation:
  "\<exists>ad. get_abs_deviation [20, 20, 20, 20, 20, 20, 20, 20, 21, 19]
          = Some ([20, 20, 20, 20, 20, 20, 20, 20, 21, 19], ad) \<and>
     avg ad = Finite 20 \<and> std_dev ad = Finite (8056283928194521 / 2 ^ 54) \<and>
     std_pp_of ad = Finite (5035177455121550 / 2 ^ 51)"
proof -
  let ?xs = "[20, 20, 20, 20, 20, 20, 20, 20, 21, 19] :: ticks list"
  obtain vals ad where r: "get_abs_deviation ?xs = Some (vals, ad)"
    using get_abs_deviation_total [of ?xs] by auto
  have v: "vals = ?xs"
    using get_abs_deviation_vals [OF r] by (simp add: clipped_def PFD_VAL_UP_LIMIT_def)
  have c: "map clipped ?xs = ?xs" by (simp add: clipped_def PFD_VAL_UP_LIMIT_def)
  have s: "dbl_div (dbl_of_ticks (sum_list ?xs)) (dbl_of_size (length ?xs)) = Finite 20"
    by (simp add: dbl_of_ticks_def dbl_of_size_def)
  from get_abs_deviation_ad [OF r] obtain d where
    ad: "ad = summary (length ?xs) (Finite 20) (band_locals ?xs (Finite 20) (length ?xs))
         (band_avgs_of (band_locals ?xs (Finite 20) (length ?xs))) d"
    unfolding c s by blast
  have a: "avg ad = Finite 20" by (simp add: ad)
  have len: "length ?xs = 10" by simp
  have sd: "std_dev ad = Finite (8056283928194521 / 2 ^ 54)"
    unfolding ad summary_std_dev len steady_sum_stdev by (rule steady_std_dev)
  have "std_pp_of ad = dbl_mul (Finite 100)
     (dbl_sub (Finite 1)
        (dbl_div (dbl_sub (Finite 20) (Finite (8056283928194521 / 2 ^ 54))) (Finite 20)))"
    by (rule std_pp_of_finite [OF a _ sd]) simp
  then have q: "std_pp_of ad = Finite (5035177455121550 / 2 ^ 51)"
    by (simp only: steady_formula)
  from r v a sd q show ?thesis by blast
qed

lemma steady_round:
  assumes "\<forall>i < 10. round_delta e 0 i = [20, 20, 20, 20, 20, 20, 20, 20, 21, 19] ! i"
  shows "round_samples e 10 0 = [20, 20, 20, 20, 20, 20, 20, 20, 21, 19]"
proof -
  have u: "unat (10 :: 32 word) = 10" by simp
  show ?thesis
    unfolding round_samples_def u using assms by (simp add: upt_rec)
qed

lemma steady_bounds:
  "(2 / 5 :: real) < 8056283928194521 / 2 ^ 54" "(8056283928194521 / 2 ^ 54 :: real) < 1 / 2"
  "(2 :: real) < 5035177455121550 / 2 ^ 51" "(5035177455121550 / 2 ^ 51 :: real) < 3"
  by simp_all

lemma round_correction_20: "round_correction (Finite 20) out = Inr (20, Finite 20, out)"
  by (simp add: round_correction_def dbl_of_ticks_UINT64_MAX dbl_ge_def)

lemma steady_result:
  assumes "alloc_ok e"
    and "\<forall>i < 10. round_delta e 0 i = [20, 20, 20, 20, 20, 20, 20, 20, 21, 19] ! i"
  shows "round_quality e 10 0 = Finite (5035177455121550 / 2 ^ 51)"
    and "\<not> round_fails e 10 0"
    and "pfd_store_init e a old 10 =
      Some (Inr \<lparr>state = \<lparr>pfd_correction = 20,
                          pfd_store_0 = [20, 20, 20, 20, 20, 20, 20, 20, 21, 19]\<rparr>,
                 printed = [Set_correction 20 (Finite (5035177455121550 / 2 ^ 51))],
                 rounds = 1\<rparr>)"
proof -
  let ?xs = "[20, 20, 20, 20, 20, 20, 20, 20, 21, 19] :: ticks list"
  obtain ad where r: "get_abs_deviation (round_samples e 10 0) = Some (?xs, ad)"
    and a: "avg ad = Finite 20" and q: "std_pp_of ad = Finite (5035177455121550 / 2 ^ 51)"
    using steady_deviation steady_round [OF assms(2)] by auto
  show rq: "round_quality e 10 0 = Finite (5035177455121550 / 2 ^ 51)"
    by (simp only: round_quality_def r q option.case snd_conv)
  have "\<not> dbl_gt (Finite (5035177455121550 / 2 ^ 51)) PFD_CORRECTION_CONF"
    by (simp add: dbl_gt_def PFD_CORRECTION_CONF_def)
  then show nf: "\<not> round_fails e 10 0"
    unfolding round_fails_def rq .
  note c = first_round_accepted [OF r nf, of a]
  have s: "sanitize_avg e (Finite 20) 0 [] = \<lparr>f_corrected_avg = Finite 20, f_pos = 0, f_log = []\<rparr>"
    by (simp add: sanitize_avg_def)
  have nz: "(20 :: ticks) \<noteq> 0" by simp
  have fin: "isfinite (Finite (5035177455121550 / 2 ^ 51))" by simp
  have z: "\<not> dbl_le (Finite 20) (Finite 0)" by simp
  have pos: "(0 :: ticks) < 20" by simp
  show "pfd_store_init e a old 10 =
      Some (Inr \<lparr>state = \<lparr>pfd_correction = 20, pfd_store_0 = ?xs\<rparr>,
                 printed = [Set_correction 20 (Finite (5035177455121550 / 2 ^ 51))],
                 rounds = 1\<rparr>)"
    using assms(1) z pos fin
    unfolding pfd_store_init_def Let_def c option.case
    by (simp only: calibration.simps a q s fixing.simps round_correction_20 sum.case prod.case
          enforce_positive_nonzero [OF nz] if_False if_True not_not append_Nil
          not_True_eq_False)
qed

lemma steady_env_samples:
  "\<forall>i < 10. round_delta (samples_env [20, 20, 20, 20, 20, 20, 20, 20, 21, 19] clk) 0 i
      = [20, 20, 20, 20, 20, 20, 20, 20, 21, 19] ! i"
  by (simp add: samples_env_def)

text \<open>
  Claim C8, as the code has it. For the calibration samples 20 (eight times), 21 and 19
  the average is 20 and the standard deviation is the double nearest to the square root
  of 0.2, about 0.447. The quality percentage is 2.236...: it does not exceed the
  threshold 3, so the first round is accepted. There is no retry and no warning, and
  the correction is 20.
\<close>

theorem steady_samples:
  "alloc_ok e \<and> (\<forall>i < 10. round_delta e 0 i = [20, 20, 20, 20, 20, 20, 20, 20, 21, 19] ! i) \<longrightarrow>
     (\<exists>ad. get_abs_deviation (round_samples e 10 0)
             = Some ([20, 20, 20, 20, 20, 20, 20, 20, 21, 19], ad) \<and>
           avg ad = Finite 20 \<and> std_dev ad = Finite (8056283928194521 / 2 ^ 54)) \<and>
     (2 / 5 :: real) < 8056283928194521 / 2 ^ 54 \<and> (8056283928194521 / 2 ^ 54 :: real) < 1 / 2 \<and>
     round_quality e 10 0 = Finite (5035177455121550 / 2 ^ 51) \<and>
     (2 :: real) < 5035177455121550 / 2 ^ 51 \<and> (5035177455121550 / 2 ^ 51 :: real) < 3 \<and>
     \<not> round_fails e 10 0 \<and>
     pfd_store_init e a old 10 =
       Some (Inr \<lparr>state = \<lparr>pfd_correction = 20,
                           pfd_store_0 = [20, 20, 20, 20, 20, 20, 20, 20, 21, 19]\<rparr>,
                  printed = [Set_correction 20 (Finite (5035177455121550 / 2 ^ 51))],
                  rounds = 1\<rparr>)"
proof (intro impI)
  assume "alloc_ok e \<and>
    (\<forall>i < 10. round_delta e 0 i = [20, 20, 20, 20, 20, 20, 20, 20, 21, 19] ! i)"
  then have ok: "alloc_ok e"
    and sm: "\<forall>i < 10. round_delta e 0 i = [20, 20, 20, 20, 20, 20, 20, 20, 21, 19] ! i"
    by simp_all
  have d: "\<exists>ad. get_abs_deviation (round_samples e 10 0)
             = Some ([20, 20, 20, 20, 20, 20, 20, 20, 21, 19], ad) \<and>
           avg ad = Finite 20 \<and> std_dev ad = Finite (8056283928194521 / 2 ^ 54)"
    using steady_deviation steady_round [OF sm] by auto
  from d steady_bounds steady_result(1,2) [OF ok sm]
    steady_result(3) [OF ok sm, of a old]
  show "(\<exists>ad. get_abs_deviation (round_samples e 10 0)
             = Some ([20, 20, 20, 20, 20, 20, 20, 20, 21, 19], ad) \<and>
           avg ad = Finite 20 \<and> std_dev ad = Finite (8056283928194521 / 2 ^ 54)) \<and>
     (2 / 5 :: real) < 8056283928194521 / 2 ^ 54 \<and> (8056283928194521 / 2 ^ 54 :: real) < 1 / 2 \<and>
     round_quality e 10 0 = Finite (5035177455121550 / 2 ^ 51) \<and>
     (2 :: real) < 5035177455121550 / 2 ^ 51 \<and> (5035177455121550 / 2 ^ 51 :: real) < 3 \<and>
     \<not> round_fails e 10 0 \<and>
     pfd_store_init e a old 10 =
       Some (Inr \<lparr>state = \<lparr>pfd_correction = 20,
                           pfd_store_0 = [20, 20, 20, 20, 20, 20, 20, 20, 21, 19]\<rparr>,
                  printed = [Set_correction 20 (Finite (5035177455121550 / 2 ^ 51))],
                  rounds = 1\<rparr>)"
    by (intro conjI)
qed

theorem steady_samples_witness:
  "pfd_store_init (samples_env [20, 20, 20, 20, 20, 20, 20, 20, 21, 19] ticking_clock)
      Other_arch fresh_state 10 =
     Some (Inr \<lparr>state = \<lparr>pfd_correction = 20,
                         pfd_store_0 = [20, 20, 20, 20, 20, 20, 20, 20, 21, 19]\<rparr>,
                printed = [Set_correction 20 (Finite (5035177455121550 / 2 ^ 51))],
                rounds = 1\<rparr>) \<and>
   filter is_warning [Set_correction 20 (Finite (5035177455121550 / 2 ^ 51))] = []"
proof -
  let ?e = "samples_env [20, 20, 20, 20, 20, 20, 20, 20, 21, 19] ticking_clock"
  have h: "alloc_ok ?e \<and>
      (\<forall>i < 10. round_delta ?e 0 i = [20, 20, 20, 20, 20, 20, 20, 20, 21, 19] ! i)"
    using steady_env_samples [of ticking_clock] by simp
  have w: "filter is_warning [Set_correction 20 (Finite (5035177455121550 / 2 ^ 51))] = []"
    by simp
  from steady_samples [of ?e Other_arch fresh_state, THEN mp, OF h] w
  show ?thesis by blast
qed

text \<open>
  The figures of the claim as the specification states it do not hold: the standard
  deviation is below 0.5, and the quality percentage is below 3 and does not exceed
  the threshold.
\<close>

theorem steady_samples_counterexample:
  "map_option (std_dev \<circ> snd) (get_abs_deviation [20, 20, 20, 20, 20, 20, 20, 20, 21, 19])
     = Some (Finite (8056283928194521 / 2 ^ 54)) \<and>
   (8056283928194521 / 2 ^ 54 :: real) < 1 / 2 \<and>
   map_option (std_pp_of \<circ> snd) (get_abs_deviation [20, 20, 20, 20, 20, 20, 20, 20, 21, 19])
     = Some (Finite (5035177455121550 / 2 ^ 51)) \<and>
   (5035177455121550 / 2 ^ 51 :: real) < 3 \<and>
   \<not> dbl_gt (Finite (5035177455121550 / 2 ^ 51)) PFD_CORRECTION_CONF"
proof -
  obtain ad where r: "get_abs_deviation [20, 20, 20, 20, 20, 20, 20, 20, 21, 19]
          = Some ([20, 20, 20, 20, 20, 20, 20, 20, 21, 19], ad)"
    and sd: "std_dev ad = Finite (8056283928194521 / 2 ^ 54)"
    and q: "std_pp_of ad = Finite (5035177455121550 / 2 ^ 51)"
    using steady_deviation by blast
  have a: "map_option (std_dev \<circ> snd) (get_abs_deviation [20, 20, 20, 20, 20, 20, 20, 20, 21, 19])
     = Some (Finite (8056283928194521 / 2 ^ 54))"
    by (simp only: r option.map comp_apply snd_conv sd)
  have b: "map_option (std_pp_of \<circ> snd) (get_abs_deviation [20, 20, 20, 20, 20, 20, 20, 20, 21, 19])
     = Some (Finite (5035177455121550 / 2 ^ 51))"
    by (simp only: r option.map comp_apply snd_conv q)
  have c: "\<not> dbl_gt (Finite (5035177455121550 / 2 ^ 51)) PFD_CORRECTION_CONF"
    by (simp add: dbl_gt_def PFD_CORRECTION_CONF_def)
  from a b c steady_bounds(2,4) show ?thesis by (intro conjI)
qed

end
